theory Spec2Isabelle
  imports Main "HOL-Library.Sublist"
begin

section \<open>Data model\<close>

text \<open>
  Prop values (\<^verbatim>\<open>MdxPropValue = unknown\<close>) are arbitrary JavaScript values. The engine
  itself inspects a value only with \<^verbatim>\<open>=== true\<close> and \<^verbatim>\<open>=== undefined\<close>; everything
  else is handed to the serializer. \<open>JOpaque\<close> stands for any value that is not plain
  data (a function, a symbol, a live handle). No arithmetic is done on a number, so
  \<open>JNum\<close> carries an integer as a stand-in for the payload.
\<close>

datatype js_value =
    JUndefined
  | JNull
  | JBool bool
  | JNum int
  | JStr string
  | JArr "js_value list"
  | JObj "(string \<times> js_value) list"
  | JOpaque nat

text \<open>
  A thrown JavaScript value: an \<^verbatim>\<open>Error\<close> instance with its message, or anything else
  (\<^verbatim>\<open>throw\<close> accepts every value).
\<close>

datatype thrown = Error string | NonError js_value

text \<open>
  \<^verbatim>\<open>valueToEstree\<close> comes from the package \<^verbatim>\<open>estree-util-value-to-estree\<close>. It is a
  parameter of the model: a function from a value to either the thrown value or an
  expression of some type \<open>'e\<close>.
\<close>

type_synonym 'e valueToEstree = "js_value \<Rightarrow> thrown + 'e"

datatype 'e statement = ExpressionStatement 'e

record 'e Program =
  sourceType :: string
  body :: "'e statement list"

record 'e MdxJsxAttributeValueExpression =
  "value" :: string
  estree :: "'e Program"

text \<open>
  The \<^verbatim>\<open>value\<close> of an \<^verbatim>\<open>mdxJsxAttribute\<close> is \<^verbatim>\<open>null\<close> (presence only), a string,
  or a value expression. A parsed element can also carry spread attributes
  (\<^verbatim>\<open>mdxJsxExpressionAttribute\<close>); the engine never builds one.
\<close>

datatype 'e attribute_value =
    Null
  | StringValue string
  | ValueExpression "'e MdxJsxAttributeValueExpression"

datatype 'e attribute =
    MdxJsxAttribute string "'e attribute_value"
  | MdxJsxExpressionAttribute string

text \<open>
  A node of the document tree. \<open>Flow\<close> is an \<^verbatim>\<open>mdxJsxFlowElement\<close> with its
  \<^verbatim>\<open>name\<close> (\<^verbatim>\<open>null\<close> for a fragment), \<^verbatim>\<open>attributes\<close> and \<^verbatim>\<open>children\<close>; \<open>Other\<close> is a
  node of any other \<^verbatim>\<open>type\<close> with its children (none for a literal).
\<close>

datatype 'e node =
    Flow "string option" "'e attribute list" "'e node list"
  | Other string "'e node list"

fun children :: "'e node \<Rightarrow> 'e node list" where
  "children (Flow n as cs) = cs"
| "children (Other k cs) = cs"

fun setChildren :: "'e node \<Rightarrow> 'e node list \<Rightarrow> 'e node" where
  "setChildren (Flow n as cs) cs' = Flow n as cs'"
| "setChildren (Other k cs) cs' = Other k cs'"

text \<open>
  Objects used as dictionaries (\<^verbatim>\<open>Record<string, V>\<close>) are association lists of their
  own enumerable properties in enumeration order, so the keys of such a list are
  distinct; \<open>map_of\<close> is the lookup of an own property.
\<close>

datatype ChildrenPolicy = Preserve | Clear

record MdxRewriteOptions =
  childrenPolicy :: "ChildrenPolicy option"

record Component =
  name :: string
  props :: "(string \<times> js_value) list option"

record MdxRenameTarget =
  component :: Component
  transformOptions :: "MdxRewriteOptions option"

text \<open>
  An optional property whose presence is observed with \<^verbatim>\<open>Object.hasOwn\<close>: it is
  absent, present with the value \<^verbatim>\<open>undefined\<close>, or present with a value.
\<close>

datatype 'a own_property = Absent | Undefined | Declared 'a

record MdxTransformRule =
  renameFlow :: "(string \<times> MdxRenameTarget) list own_property"

type_synonym ScopedMdxTransformRegistry = "(string \<times> MdxTransformRule) list"

section \<open>Attribute building (plugin.ts)\<close>

definition isNamedMdxJsxFlowElement :: "'e node \<Rightarrow> bool" where
  "isNamedMdxJsxFlowElement node =
     (case node of Flow (Some n) as cs \<Rightarrow> True | _ \<Rightarrow> False)"

definition createAttributeValueExpression ::
  "'e valueToEstree \<Rightarrow> js_value \<Rightarrow> thrown + 'e MdxJsxAttributeValueExpression" where
  "createAttributeValueExpression valueToEstree v =
     (case valueToEstree v of
        Inl err \<Rightarrow> Inl err
      | Inr expression \<Rightarrow>
          Inr \<lparr> value = [],
                estree = \<lparr> sourceType = ''module'',
                           body = [ExpressionStatement expression] \<rparr> \<rparr>)"

definition errorMessage :: "thrown \<Rightarrow> string" where
  "errorMessage err =
     (case err of Error m \<Rightarrow> m | NonError v \<Rightarrow> ''Unknown serialization error'')"

definition serializationMessage :: "string \<Rightarrow> string \<Rightarrow> string" where
  "serializationMessage propName message =
     ''Failed to serialize MDX prop '' @ [CHR 0x22] @ propName @ [CHR 0x22] @
     '' into an attribute expression: '' @ message"

definition toMdxAttribute ::
  "'e valueToEstree \<Rightarrow> string \<Rightarrow> js_value \<Rightarrow> thrown + 'e attribute" where
  "toMdxAttribute valueToEstree propName propValue =
     (if propValue = JBool True then Inr (MdxJsxAttribute propName Null)
      else
        (case createAttributeValueExpression valueToEstree propValue of
           Inr e \<Rightarrow> Inr (MdxJsxAttribute propName (ValueExpression e))
         | Inl err \<Rightarrow> Inl (Error (serializationMessage propName (errorMessage err)))))"

text \<open>The \<^verbatim>\<open>for\<close> loop of \<^verbatim>\<open>buildAttributes\<close>; the first throw leaves it.\<close>

fun buildAttributesLoop ::
  "'e valueToEstree \<Rightarrow> (string \<times> js_value) list \<Rightarrow> 'e attribute list \<Rightarrow>
   thrown + 'e attribute list" where
  "buildAttributesLoop valueToEstree [] attributes = Inr attributes"
| "buildAttributesLoop valueToEstree ((propName, propValue) # entries) attributes =
     (if propValue = JUndefined then buildAttributesLoop valueToEstree entries attributes
      else
        (case toMdxAttribute valueToEstree propName propValue of
           Inl err \<Rightarrow> Inl err
         | Inr a \<Rightarrow> buildAttributesLoop valueToEstree entries (attributes @ [a])))"

definition buildAttributes ::
  "'e valueToEstree \<Rightarrow> (string \<times> js_value) list option \<Rightarrow> thrown + 'e attribute list" where
  "buildAttributes valueToEstree ps =
     (case ps of None \<Rightarrow> Inr [] | Some entries \<Rightarrow> buildAttributesLoop valueToEstree entries [])"

text \<open>The condition \<^verbatim>\<open>target.transformOptions?.childrenPolicy === 'clear'\<close>.\<close>

definition clearsChildren :: "MdxRenameTarget \<Rightarrow> bool" where
  "clearsChildren target =
     (case transformOptions target of
        None \<Rightarrow> False
      | Some opts \<Rightarrow> childrenPolicy opts = Some Clear)"

text \<open>
  \<^verbatim>\<open>applyFlowRename\<close> mutates the element in three assignments. The result is the
  element as the call leaves it and the thrown value, if any: a throw of
  \<^verbatim>\<open>buildAttributes\<close> happens after the name was assigned and before the other two
  assignments. The function is only ever called on a flow element.
\<close>

fun applyFlowRename ::
  "'e valueToEstree \<Rightarrow> 'e node \<Rightarrow> MdxRenameTarget \<Rightarrow> 'e node \<times> thrown option" where
  "applyFlowRename valueToEstree (Flow n as cs) target =
     (case buildAttributes valueToEstree (props (component target)) of
        Inl err \<Rightarrow> (Flow (Some (name (component target))) as cs, Some err)
      | Inr as' \<Rightarrow>
          (Flow (Some (name (component target))) as'
             (if clearsChildren target then [] else cs), None))"
| "applyFlowRename valueToEstree (Other k cs) target = (Other k cs, None)"

section \<open>Traversal (plugin.ts)\<close>

text \<open>
  \<^verbatim>\<open>visit(tree, test, visitor)\<close> of \<^verbatim>\<open>unist-util-visit\<close> walks the tree in pre-order.
  At each node it calls the visitor if the test holds; unless the visitor returned
  \<^verbatim>\<open>SKIP\<close> it then walks \<^verbatim>\<open>node.children\<close>, read after the visitor ran, from offset 0
  upwards. A throw of the visitor leaves the walk and the whole call. Both walks of the
  plugin are instances of it and are written out below.

  The tree is mutated in place. The model passes the tree through and returns it as the
  walk leaves it, together with the thrown value, if any. A node is identified by its
  path, the list of child offsets from the root of the walk. A trace is recorded beside
  the tree; it is not data of the program. Its events, each with the path of its node:
  \<^item> \<open>Renamed target\<close>: a call of \<^verbatim>\<open>applyFlowRename\<close> with this rewrite target;
  \<^item> \<open>Tested b\<close>: the outer walk evaluated its test at the node, with result \<open>b\<close>.
\<close>

type_synonym path = "nat list"

datatype event = Renamed MdxRenameTarget | Tested bool

type_synonym trace = "(path \<times> event) list"

definition below :: "nat \<Rightarrow> trace \<Rightarrow> trace" where
  "below i l = map (\<lambda>(p, x). (i # p, x)) l"

text \<open>
  The loop of \<^verbatim>\<open>visit\<close> over \<^verbatim>\<open>node.children\<close>: the children are walked from
  \<open>offset\<close> on, and a throw at one child leaves the later children as they are.
\<close>

fun visitChildren ::
  "('e node \<Rightarrow> 'e node \<times> trace \<times> thrown option) \<Rightarrow> nat \<Rightarrow> 'e node list \<Rightarrow>
   'e node list \<times> trace \<times> thrown option" where
  "visitChildren walk offset [] = ([], [], None)"
| "visitChildren walk offset (child # rest) =
     (case walk child of
        (child', l, Some err) \<Rightarrow> (child' # rest, below offset l, Some err)
      | (child', l, None) \<Rightarrow>
          (case visitChildren walk (Suc offset) rest of
             (rest', l', e) \<Rightarrow> (child' # rest', below offset l @ l', e)))"

lemma visitChildren_cong [fundef_cong]:
  "cs = cs' \<Longrightarrow> offset = offset' \<Longrightarrow> (\<And>c. c \<in> set cs' \<Longrightarrow> walk c = walk' c) \<Longrightarrow>
   visitChildren walk offset cs = visitChildren walk' offset' cs'"
  by (induction cs' arbitrary: cs offset offset') (auto split: prod.splits option.splits)

text \<open>The number of nodes of a tree: the measure of both walks.\<close>

fun weight :: "'e node \<Rightarrow> nat" where
  "weight (Flow n as cs) = Suc (sum_list (map weight cs))"
| "weight (Other k cs) = Suc (sum_list (map weight cs))"

lemma weight_child: "c \<in> set (children node) \<Longrightarrow> weight c < weight node"
  by (cases node) (auto simp: less_Suc_eq_le member_le_sum_list)

text \<open>
  The visitor of the inner walk,
  \<^verbatim>\<open>element => { ... applyFlowRename(element, renameTarget) }\<close>, at an element other than
  the scope root: the element as the visitor leaves it, what the visitor returned, the
  rename it applied, and the thrown value. \<open>rf\<close> is the scope's \<^verbatim>\<open>renameFlow\<close>.
\<close>

datatype action = CONTINUE | SKIP

text \<open>
  \<^verbatim>\<open>renameFlow[element.name]\<close> reads a property of an ordinary object, so a name that
  is no own key of the rename map is still found when \<^verbatim>\<open>Object.prototype\<close> has a
  property of that name. Each of these inherited values is truthy (a function, or
  \<^verbatim>\<open>Object.prototype\<close> itself for \<^verbatim>\<open>__proto__\<close>) and has no \<^verbatim>\<open>component\<close>.
\<close>

definition objectPrototypeKeys :: "string set" where
  "objectPrototypeKeys =
     {''constructor'', ''hasOwnProperty'', ''isPrototypeOf'', ''propertyIsEnumerable'',
      ''toLocaleString'', ''toString'', ''valueOf'', ''__proto__'',
      ''__defineGetter__'', ''__defineSetter__'', ''__lookupGetter__'', ''__lookupSetter__''}"

datatype 'a property_value = Own 'a | Inherited | Missing

definition getProperty :: "(string \<times> 'a) list \<Rightarrow> string \<Rightarrow> 'a property_value" where
  "getProperty obj key =
     (case map_of obj key of
        Some v \<Rightarrow> Own v
      | None \<Rightarrow> if key \<in> objectPrototypeKeys then Inherited else Missing)"

text \<open>
  With an inherited value as its target, \<^verbatim>\<open>applyFlowRename\<close> throws at
  \<^verbatim>\<open>target.component.name\<close>, before its first assignment: a \<^verbatim>\<open>TypeError\<close>, here with
  the message that V8 gives it.
\<close>

definition propertyOfUndefined :: thrown where
  "propertyOfUndefined =
     Error (''Cannot read properties of undefined (reading '' @ [CHR 0x27] @ ''name'' @
            [CHR 0x27] @ '')'')"

definition scopeVisitor ::
  "'e valueToEstree \<Rightarrow> string set \<Rightarrow> (string \<times> MdxRenameTarget) list \<Rightarrow> 'e node \<Rightarrow>
   'e node \<times> action \<times> trace \<times> thrown option" where
  "scopeVisitor enc scopeComponentNames rf element =
     (case element of
        Flow (Some n) as cs \<Rightarrow>
          (if n \<in> scopeComponentNames then (element, SKIP, [], None)
           else
             (case getProperty rf n of
                Missing \<Rightarrow> (element, CONTINUE, [], None)
              | Inherited \<Rightarrow> (element, CONTINUE, [], Some propertyOfUndefined)
              | Own renameTarget \<Rightarrow>
                  (case applyFlowRename enc element renameTarget of
                     (element', e) \<Rightarrow> (element', CONTINUE, [([], Renamed renameTarget)], e))))
      | _ \<Rightarrow> (element, CONTINUE, [], None))"

lemma scopeVisitor_children:
  "scopeVisitor enc names rf node = (element, a, tr, e) \<Longrightarrow>
   children element = children node \<or> children element = []"
  by (auto simp: scopeVisitor_def
        split: node.splits option.splits property_value.splits if_splits sum.splits)

text \<open>
  The inner walk, \<^verbatim>\<open>visit(scopeElement, isNamedMdxJsxFlowElement, element => ...)\<close>, below
  the scope root.
\<close>

function innerVisit ::
  "'e valueToEstree \<Rightarrow> string set \<Rightarrow> (string \<times> MdxRenameTarget) list \<Rightarrow> 'e node \<Rightarrow>
   'e node \<times> trace \<times> thrown option" where
  "innerVisit enc names rf node =
     (if isNamedMdxJsxFlowElement node then
        (case scopeVisitor enc names rf node of
           (element, a, tr, Some err) \<Rightarrow> (element, tr, Some err)
         | (element, SKIP, tr, None) \<Rightarrow> (element, tr, None)
         | (element, CONTINUE, tr, None) \<Rightarrow>
             (case visitChildren (innerVisit enc names rf) 0 (children element) of
                (cs', l, e) \<Rightarrow> (setChildren element cs', tr @ l, e)))
      else
        (case visitChildren (innerVisit enc names rf) 0 (children node) of
           (cs', l, e) \<Rightarrow> (setChildren node cs', l, e)))"
  by pat_completeness auto
termination
proof (relation "measure (\<lambda>(enc, names, rf, node). weight node)", goal_cases)
  case 1
  show ?case by simp
next
  case (2 enc names rf node x y xa ya xb yb c)
  from scopeVisitor_children[of enc names rf node x xa xb yb] 2
  have "c \<in> set (children node)" by auto
  then show ?case by (simp add: weight_child)
next
  case (3 enc names rf node c)
  then show ?case by (simp add: weight_child)
qed

text \<open>
  The visitor of the outer walk, \<^verbatim>\<open>createScopeVisitor(registry, scopeComponentNames)\<close>.
  At the scope root itself the inner visitor returns at once
  (\<^verbatim>\<open>element === scopeElement\<close>), so the inner walk goes on with the children.
\<close>

definition createScopeVisitor ::
  "'e valueToEstree \<Rightarrow> ScopedMdxTransformRegistry \<Rightarrow> string set \<Rightarrow> 'e node \<Rightarrow>
   'e node \<times> trace \<times> thrown option" where
  "createScopeVisitor enc registry scopeComponentNames scopeElement =
     (case scopeElement of
        Flow (Some n) as cs \<Rightarrow>
          (case map_of registry n of
             None \<Rightarrow> (scopeElement, [], None)
           | Some scopeRule \<Rightarrow>
               (case renameFlow scopeRule of
                  Declared rf \<Rightarrow>
                    (case visitChildren (innerVisit enc scopeComponentNames rf) 0 cs of
                       (cs', l, e) \<Rightarrow> (Flow (Some n) as cs', l, e))
                | _ \<Rightarrow> (scopeElement, [], None)))
      | _ \<Rightarrow> (scopeElement, [], None))"

text \<open>
  \<^verbatim>\<open>shouldProcessScope\<close>: the set \<^verbatim>\<open>activeScopeNames\<close> and the test built on it.
\<close>

definition hasOwn_renameFlow :: "MdxTransformRule \<Rightarrow> bool" where
  "hasOwn_renameFlow rule = (renameFlow rule \<noteq> Absent)"

definition activeScopeNames :: "ScopedMdxTransformRegistry \<Rightarrow> string set" where
  "activeScopeNames registry =
     set (map fst (filter (\<lambda>(scopeComponentName, rule). hasOwn_renameFlow rule) registry))"

definition shouldProcessScope :: "ScopedMdxTransformRegistry \<Rightarrow> 'e node \<Rightarrow> bool" where
  "shouldProcessScope registry node =
     (case node of
        Flow (Some n) as cs \<Rightarrow> n \<in> activeScopeNames registry
      | _ \<Rightarrow> False)"

lemma visitChildren_weight:
  "visitChildren walk offset cs = (cs', l, e) \<Longrightarrow>
   (\<And>c c' lc ec. c \<in> set cs \<Longrightarrow> walk c = (c', lc, ec) \<Longrightarrow> weight c' \<le> weight c) \<Longrightarrow>
   sum_list (map weight cs') \<le> sum_list (map weight cs)"
proof (induction cs arbitrary: offset cs' l e)
  case Nil
  then show ?case by simp
next
  case (Cons c cs)
  obtain c' lc ec where w: "walk c = (c', lc, ec)" by (cases "walk c") auto
  have c: "weight c' \<le> weight c" using Cons.prems(2)[OF _ w] by simp
  show ?case
  proof (cases ec)
    case (Some err)
    with w Cons.prems(1) c show ?thesis by auto
  next
    case None
    obtain r lr er where r: "visitChildren walk (Suc offset) cs = (r, lr, er)"
      by (cases "visitChildren walk (Suc offset) cs") auto
    have "sum_list (map weight r) \<le> sum_list (map weight cs)"
      using Cons.IH[OF r] Cons.prems(2) by auto
    with w None r Cons.prems(1) c show ?thesis by auto
  qed
qed

lemma weight_setChildren: "weight (setChildren node cs) = Suc (sum_list (map weight cs))"
  by (cases node) auto

lemma weight_eq: "weight node = Suc (sum_list (map weight (children node)))"
  by (cases node) auto

lemma scopeVisitor_unnamed:
  "\<not> isNamedMdxJsxFlowElement node \<Longrightarrow>
   scopeVisitor enc names rf node = (node, CONTINUE, [], None)"
  by (auto simp: scopeVisitor_def isNamedMdxJsxFlowElement_def split: node.splits option.splits)

lemma innerVisit_unfold:
  "innerVisit enc names rf node =
     (case scopeVisitor enc names rf node of
        (element, a, tr, Some err) \<Rightarrow> (element, tr, Some err)
      | (element, SKIP, tr, None) \<Rightarrow> (element, tr, None)
      | (element, CONTINUE, tr, None) \<Rightarrow>
          (case visitChildren (innerVisit enc names rf) 0 (children element) of
             (cs', l, e) \<Rightarrow> (setChildren element cs', tr @ l, e)))"
  by (cases "isNamedMdxJsxFlowElement node")
     (simp_all add: scopeVisitor_unnamed split: prod.splits)

declare innerVisit.simps [simp del]

lemma innerVisit_cases:
  assumes "innerVisit enc names rf node = (node', l, e)"
  obtains (stop) a where "scopeVisitor enc names rf node = (node', a, l, e)"
                         "a = SKIP \<or> e \<noteq> None"
  | (descend) element tr cs' l' where
      "scopeVisitor enc names rf node = (element, CONTINUE, tr, None)"
      "visitChildren (innerVisit enc names rf) 0 (children element) = (cs', l', e)"
      "node' = setChildren element cs'" "l = tr @ l'"
proof -
  obtain element a tr ea where sv: "scopeVisitor enc names rf node = (element, a, tr, ea)"
    by (cases "scopeVisitor enc names rf node") auto
  show thesis
  proof (cases "ea = None \<and> a = CONTINUE")
    case False
    with assms sv have "node' = element \<and> l = tr \<and> e = ea \<and> (a = SKIP \<or> e \<noteq> None)"
      by (subst (asm) innerVisit_unfold) (cases ea; cases a; auto)
    with sv stop show thesis by blast
  next
    case True
    obtain cs' l' e' where
      v: "visitChildren (innerVisit enc names rf) 0 (children element) = (cs', l', e')"
      by (cases "visitChildren (innerVisit enc names rf) 0 (children element)") auto
    with assms sv True have "node' = setChildren element cs' \<and> l = tr @ l' \<and> e = e'"
      by (subst (asm) innerVisit_unfold) auto
    with sv True v descend show thesis by blast
  qed
qed

lemma innerVisit_weight:
  "innerVisit enc names rf node = (node', l, e) \<Longrightarrow> weight node' \<le> weight node"
proof (induction "weight node" arbitrary: node node' l e rule: less_induct)
  case less
  from less.prems show ?case
  proof (cases rule: innerVisit_cases)
    case (stop a)
    from scopeVisitor_children[OF stop(1)] show ?thesis
      by (auto simp: weight_eq[of node] weight_eq[of node'])
  next
    case (descend element tr cs' l')
    have sub: "set (children element) \<subseteq> set (children node)"
      using scopeVisitor_children[OF descend(1)] by auto
    have "sum_list (map weight cs') \<le> sum_list (map weight (children element))"
      using visitChildren_weight[OF descend(2)] less.hyps sub weight_child[of _ node] by blast
    moreover have "sum_list (map weight (children element)) \<le> sum_list (map weight (children node))"
      using scopeVisitor_children[OF descend(1)] by auto
    ultimately show ?thesis
      using descend(3) by (simp add: weight_setChildren weight_eq[of node])
  qed
qed

lemma createScopeVisitor_cases:
  assumes "createScopeVisitor enc registry names node = (node', l, e)"
  obtains (idle) "node' = node" "l = []" "e = None"
  | (walk) n as cs scopeRule rf cs' where
      "node = Flow (Some n) as cs" "map_of registry n = Some scopeRule"
      "renameFlow scopeRule = Declared rf"
      "visitChildren (innerVisit enc names rf) 0 cs = (cs', l, e)"
      "node' = Flow (Some n) as cs'"
  using assms
  by (auto simp: createScopeVisitor_def
        split: node.splits option.splits own_property.splits prod.splits)

lemma createScopeVisitor_children:
  assumes "createScopeVisitor enc registry names node = (node', l, e)"
    and "c \<in> set (children node')"
  shows "weight c < weight node"
  using assms(1)
proof (cases rule: createScopeVisitor_cases)
  case idle
  with assms(2) show ?thesis by (simp add: weight_child)
next
  case (walk n as cs scopeRule rf cs')
  have "sum_list (map weight cs') \<le> sum_list (map weight cs)"
    using visitChildren_weight[OF walk(4)] innerVisit_weight by blast
  moreover have "weight c \<le> sum_list (map weight cs')"
    using assms(2) walk(5) by (simp add: member_le_sum_list)
  ultimately show ?thesis using walk(1) by simp
qed

text \<open>
  The outer walk, \<^verbatim>\<open>visit(tree, shouldProcessScope(registry), visitor)\<close>. The visitor
  returns nothing, so the walk goes on into the children of a matched node.
\<close>

function outerVisit ::
  "'e valueToEstree \<Rightarrow> ScopedMdxTransformRegistry \<Rightarrow> string set \<Rightarrow> 'e node \<Rightarrow>
   'e node \<times> trace \<times> thrown option" where
  "outerVisit enc registry names node =
     (if shouldProcessScope registry node then
        (case createScopeVisitor enc registry names node of
           (node', tr, Some err) \<Rightarrow> (node', ([], Tested True) # tr, Some err)
         | (node', tr, None) \<Rightarrow>
             (case visitChildren (outerVisit enc registry names) 0 (children node') of
                (cs', l, e) \<Rightarrow> (setChildren node' cs', ([], Tested True) # tr @ l, e)))
      else
        (case visitChildren (outerVisit enc registry names) 0 (children node) of
           (cs', l, e) \<Rightarrow> (setChildren node cs', ([], Tested False) # l, e)))"
  by pat_completeness auto
termination
proof (relation "measure (\<lambda>(enc, registry, names, node). weight node)", goal_cases)
  case 1
  show ?case by simp
next
  case (2 enc registry names node x y xa ya c)
  from createScopeVisitor_children[of enc registry names node x xa ya c] 2
  show ?case by simp
next
  case (3 enc registry names node c)
  then show ?case by (simp add: weight_child)
qed

text \<open>\<^verbatim>\<open>new Set(Object.keys(registry))\<close> in \<^verbatim>\<open>remarkScopedMdx\<close>.\<close>

definition scopeComponentNames :: "ScopedMdxTransformRegistry \<Rightarrow> string set" where
  "scopeComponentNames registry = set (map fst registry)"

text \<open>
  The transformer that \<^verbatim>\<open>remarkScopedMdx(registry)\<close> returns, applied to a tree: the
  tree as the call leaves it, the trace, and the thrown value.
\<close>

definition remarkScopedMdx ::
  "'e valueToEstree \<Rightarrow> ScopedMdxTransformRegistry \<Rightarrow> 'e node \<Rightarrow>
   'e node \<times> trace \<times> thrown option" where
  "remarkScopedMdx enc registry tree =
     outerVisit enc registry (scopeComponentNames registry) tree"

section \<open>Registry adapter (registry-adapter.ts)\<close>

text \<open>
  An entry of the component registry, of which the adapter reads \<^verbatim>\<open>mdxTransform\<close> only.
\<close>

record ComponentDefinition =
  mdxTransform :: "MdxTransformRule option"

type_synonym TransformAwareRegistry = "(string \<times> ComponentDefinition) list"

text \<open>
  A \<^verbatim>\<open>Set<string>\<close> is the list of its elements in insertion order, without
  duplicates.
\<close>

definition Set_add :: "string list \<Rightarrow> string \<Rightarrow> string list" where
  "Set_add s x = (if x \<in> set s then s else s @ [x])"

definition Set_new :: "string list \<Rightarrow> string list" where
  "Set_new xs = foldl Set_add [] xs"

definition addRenameFlowTargets ::
  "string list \<Rightarrow> (string \<times> MdxRenameTarget) list own_property \<Rightarrow> string list" where
  "addRenameFlowTargets expanded rf =
     (case rf of
        Declared m \<Rightarrow> foldl (\<lambda>acc target. Set_add acc (name (component target))) expanded (map snd m)
      | _ \<Rightarrow> expanded)"

text \<open>
  \<^verbatim>\<open>componentDefinitions[componentName]\<close> also finds a member of \<^verbatim>\<open>Object.prototype\<close>;
  none of them has an \<^verbatim>\<open>mdxTransform\<close>, so the loop goes on as for a name that is no
  key.
\<close>

definition expandHydratedComponentNames ::
  "string list \<Rightarrow> TransformAwareRegistry \<Rightarrow> string list" where
  "expandHydratedComponentNames componentNames componentDefinitions =
     foldl (\<lambda>expanded componentName.
              case map_of componentDefinitions componentName of
                None \<Rightarrow> expanded
              | Some componentDefinition \<Rightarrow>
                  (case mdxTransform componentDefinition of
                     None \<Rightarrow> expanded
                   | Some rule \<Rightarrow> addRenameFlowTargets expanded (renameFlow rule)))
           (Set_new componentNames) componentNames"

text \<open>
  The target names of the rename map of one registry entry (empty when the entry,
  its rule or its rename map is missing): used to state what the expansion adds.
\<close>

definition renameTargetNames :: "TransformAwareRegistry \<Rightarrow> string \<Rightarrow> string set" where
  "renameTargetNames componentDefinitions componentName =
     (case map_of componentDefinitions componentName of
        None \<Rightarrow> {}
      | Some componentDefinition \<Rightarrow>
          (case mdxTransform componentDefinition of
             None \<Rightarrow> {}
           | Some rule \<Rightarrow>
               (case renameFlow rule of
                  Declared m \<Rightarrow> (\<lambda>target. name (component target)) ` snd ` set m
                | _ \<Rightarrow> {})))"

section \<open>Observations and sample inputs\<close>

text \<open>Accessors used to state the properties.\<close>

fun attributes :: "'e node \<Rightarrow> 'e attribute list" where
  "attributes (Flow n as cs) = as"
| "attributes (Other k cs) = []"

fun elementName :: "'e node \<Rightarrow> string option" where
  "elementName (Flow n as cs) = n"
| "elementName (Other k cs) = None"

text \<open>
  A serializer to run the model on concrete inputs: it rejects the opaque values, as
  \<^verbatim>\<open>valueToEstree\<close> rejects a function, and takes the value itself as its expression.
\<close>

definition sampleEncoder :: "js_value valueToEstree" where
  "sampleEncoder v =
     (case v of JOpaque k \<Rightarrow> Inl (Error ''Unsupported value'') | _ \<Rightarrow> Inr v)"

text \<open>Rewrite targets, as a registry literal writes them.\<close>

definition renameTo :: "string \<Rightarrow> MdxRenameTarget" where
  "renameTo n = \<lparr>component = \<lparr>name = n, props = None\<rparr>, transformOptions = None\<rparr>"

definition renameWith ::
  "string \<Rightarrow> (string \<times> js_value) list \<Rightarrow> ChildrenPolicy \<Rightarrow> MdxRenameTarget" where
  "renameWith n ps policy =
     \<lparr>component = \<lparr>name = n, props = Some ps\<rparr>,
      transformOptions = Some \<lparr>childrenPolicy = Some policy\<rparr>\<rparr>"

text \<open>The node at a path, if the tree has one there.\<close>

fun nodeAt :: "'e node \<Rightarrow> path \<Rightarrow> 'e node option" where
  "nodeAt node [] = Some node"
| "nodeAt node (i # p) =
     (if i < length (children node) then nodeAt (children node ! i) p else None)"

text \<open>A named flow element whose name is in the given set of names.\<close>

definition boundary :: "string set \<Rightarrow> 'e node \<Rightarrow> bool" where
  "boundary names node = (case elementName node of None \<Rightarrow> False | Some n \<Rightarrow> n \<in> names)"

text \<open>The rewrite targets of the rename maps that the registry declares.\<close>

definition renameTargets :: "ScopedMdxTransformRegistry \<Rightarrow> MdxRenameTarget set" where
  "renameTargets registry =
     {t. \<exists>s rule rf k. (s, rule) \<in> set registry \<and> renameFlow rule = Declared rf \<and>
           (k, t) \<in> set rf}"

text \<open>The scope names under which the registry has a rename rule for a tag name.\<close>

definition scopesRenaming :: "ScopedMdxTransformRegistry \<Rightarrow> string \<Rightarrow> string set" where
  "scopesRenaming registry tag =
     {s. \<exists>rule rf t. (s, rule) \<in> set registry \<and> renameFlow rule = Declared rf \<and>
           (tag, t) \<in> set rf}"

text \<open>
  The rule that governs an element: its nearest proper ancestor named by a registry key
  is named by a key whose entry declares a rename map, the element itself is not named
  by a registry key, and the map has this rewrite target for the element's name.
\<close>

definition governed ::
  "ScopedMdxTransformRegistry \<Rightarrow> 'e node \<Rightarrow> path \<Rightarrow> MdxRenameTarget \<Rightarrow> bool" where
  "governed registry tree p t =
     (\<exists>r s rule rf n as cs.
        strict_prefix r p \<and>
        (\<exists>m. nodeAt tree r = Some m \<and> elementName m = Some s) \<and>
        map_of registry s = Some rule \<and> renameFlow rule = Declared rf \<and>
        (\<forall>q. strict_prefix r q \<and> strict_prefix q p \<longrightarrow>
           (\<exists>m. nodeAt tree q = Some m \<and> \<not> boundary (scopeComponentNames registry) m)) \<and>
        nodeAt tree p = Some (Flow (Some n) as cs) \<and> n \<notin> scopeComponentNames registry \<and>
        map_of rf n = Some t)"

text \<open>The test and the visitor of the outer walk at one node.\<close>

definition outerStep ::
  "'e valueToEstree \<Rightarrow> ScopedMdxTransformRegistry \<Rightarrow> string set \<Rightarrow> 'e node \<Rightarrow>
   'e node \<times> trace \<times> thrown option" where
  "outerStep enc registry names node =
     (if shouldProcessScope registry node then createScopeVisitor enc registry names node
      else (node, [], None))"

text \<open>The paths of all nodes of a tree, in document order (pre-order).\<close>

fun paths :: "'e node \<Rightarrow> path list"
and pathsFrom :: "nat \<Rightarrow> 'e node list \<Rightarrow> path list" where
  "paths (Flow n as cs) = [] # pathsFrom 0 cs"
| "paths (Other k cs) = [] # pathsFrom 0 cs"
| "pathsFrom offset [] = []"
| "pathsFrom offset (c # cs) = map ((#) offset) (paths c) @ pathsFrom (Suc offset) cs"

text \<open>The paths at which the outer walk evaluated its test, in order.\<close>

fun tested :: "trace \<Rightarrow> path list" where
  "tested [] = []"
| "tested ((p, Tested b) # l) = p # tested l"
| "tested ((p, Renamed t) # l) = tested l"

text \<open>The paths at which \<^verbatim>\<open>applyFlowRename\<close> was called, in order.\<close>

fun renamed :: "trace \<Rightarrow> path list" where
  "renamed [] = []"
| "renamed ((p, Renamed t) # l) = p # renamed l"
| "renamed ((p, Tested b) # l) = renamed l"

text \<open>\<^verbatim>\<open>buildAttributes\<close> throws this value for the props of the target.\<close>

definition failsWith :: "'e valueToEstree \<Rightarrow> MdxRenameTarget \<Rightarrow> thrown \<Rightarrow> bool" where
  "failsWith enc t err = (buildAttributes enc (props (component t)) = Inl err)"

text \<open>No rename of the trace failed.\<close>

definition clean :: "'e valueToEstree \<Rightarrow> trace \<Rightarrow> bool" where
  "clean enc l = (\<forall>p t err. (p, Renamed t) \<in> set l \<longrightarrow> \<not> failsWith enc t err)"

text \<open>
  A trace and a thrown value fit together: without a throw no rename of the trace
  failed; with a throw either the last event is the rename that threw this value and
  no rename before it failed, or the thrown value is the \<^verbatim>\<open>TypeError\<close> of an inherited
  property and no rename failed.
\<close>

definition orderly :: "'e valueToEstree \<Rightarrow> trace \<Rightarrow> thrown option \<Rightarrow> bool" where
  "orderly enc l e =
     (case e of
        None \<Rightarrow> clean enc l
      | Some err \<Rightarrow>
          (\<exists>l0 p t. l = l0 @ [(p, Renamed t)] \<and> failsWith enc t err \<and> clean enc l0) \<or>
          (err = propertyOfUndefined \<and> clean enc l))"

text \<open>The definitions to unfold when the model runs on a concrete registry and tree.\<close>

lemmas run_simps =
  remarkScopedMdx_def scopeComponentNames_def outerVisit.simps innerVisit.simps
  shouldProcessScope_def activeScopeNames_def hasOwn_renameFlow_def createScopeVisitor_def
  scopeVisitor_def getProperty_def objectPrototypeKeys_def
  isNamedMdxJsxFlowElement_def below_def buildAttributes_def
  clearsChildren_def renameTo_def renameWith_def toMdxAttribute_def
  createAttributeValueExpression_def sampleEncoder_def

section \<open>Lemmas on the two walks\<close>

subsection \<open>The loop over the children\<close>

lemma below_Nil: "below i l = [] \<longleftrightarrow> l = []"
  by (simp add: below_def)

lemma in_below: "(q, x) \<in> set (below i l) \<longleftrightarrow> (\<exists>p. q = i # p \<and> (p, x) \<in> set l)"
  by (auto simp: below_def)

lemma visitChildren_length:
  "visitChildren walk offset cs = (cs', l, e) \<Longrightarrow> length cs' = length cs"
  by (induction cs arbitrary: offset cs' l e) (auto split: prod.splits option.splits)

lemma visitChildren_heads:
  "visitChildren walk offset cs = (cs', l, e) \<Longrightarrow> (q, x) \<in> set l \<Longrightarrow>
   \<exists>i p. q = (offset + i) # p \<and> i < length cs"
proof (induction cs arbitrary: offset cs' l e)
  case Nil
  then show ?case by simp
next
  case (Cons c cs)
  obtain c' lc ec where w: "walk c = (c', lc, ec)" by (cases "walk c") auto
  show ?case
  proof (cases ec)
    case (Some err)
    with w Cons.prems have "(q, x) \<in> set (below offset lc)" by auto
    then obtain p where "q = (offset + 0) # p" by (auto simp: in_below)
    then show ?thesis by blast
  next
    case None
    obtain r lr er where r: "visitChildren walk (Suc offset) cs = (r, lr, er)"
      by (cases "visitChildren walk (Suc offset) cs") auto
    with w None Cons.prems have "(q, x) \<in> set (below offset lc) \<or> (q, x) \<in> set lr" by auto
    then show ?thesis
    proof
      assume "(q, x) \<in> set (below offset lc)"
      then obtain p where "q = (offset + 0) # p" by (auto simp: in_below)
      then show ?thesis by blast
    next
      assume "(q, x) \<in> set lr"
      from Cons.IH[OF r this] obtain i p where "q = (Suc offset + i) # p" "i < length cs" by blast
      then have "q = (offset + Suc i) # p \<and> Suc i < length (c # cs)" by simp
      then show ?thesis by blast
    qed
  qed
qed

text \<open>What the loop did at the child at position \<open>i\<close>.\<close>

lemma visitChildren_nth:
  "visitChildren walk offset cs = (cs', l, e) \<Longrightarrow> i < length cs \<Longrightarrow>
   (\<exists>li ei. walk (cs ! i) = (cs' ! i, li, ei) \<and>
       (\<forall>p x. ((offset + i) # p, x) \<in> set l \<longleftrightarrow> (p, x) \<in> set li) \<and>
       (ei \<noteq> None \<longrightarrow> e = ei)) \<or>
   (cs' ! i = cs ! i \<and> (\<forall>p x. ((offset + i) # p, x) \<notin> set l) \<and> e \<noteq> None)"
proof (induction cs arbitrary: offset cs' l e i)
  case Nil
  then show ?case by simp
next
  case (Cons c cs)
  obtain c' lc ec where w: "walk c = (c', lc, ec)" by (cases "walk c") auto
  show ?case
  proof (cases ec)
    case (Some err)
    with w Cons.prems(1) have eq: "cs' = c' # cs" "l = below offset lc" "e = Some err" by auto
    show ?thesis
    proof (cases i)
      case 0
      with eq w Some show ?thesis by (auto simp: in_below)
    next
      case (Suc j)
      with eq show ?thesis by (auto simp: in_below)
    qed
  next
    case None
    obtain r lr er where r: "visitChildren walk (Suc offset) cs = (r, lr, er)"
      by (cases "visitChildren walk (Suc offset) cs") auto
    with w None Cons.prems(1) have eq: "cs' = c' # r" "l = below offset lc @ lr" "e = er" by auto
    have later: "\<And>p x. (offset # p, x) \<notin> set lr"
      using visitChildren_heads[OF r] by fastforce
    show ?thesis
    proof (cases i)
      case 0
      with eq w None later show ?thesis by (auto simp: in_below)
    next
      case (Suc j)
      with Cons.prems(2) have j: "j < length cs" by simp
      from Cons.IH[OF r j] Suc eq show ?thesis by (auto simp: in_below)
    qed
  qed
qed

lemma nodeAt_setChildren_Cons:
  "nodeAt (setChildren node cs) (i # p) = (if i < length cs then nodeAt (cs ! i) p else None)"
  by (cases node) auto

lemma children_setChildren: "children (setChildren node cs) = cs"
  by (cases node) auto

lemma elementName_setChildren: "elementName (setChildren node cs) = elementName node"
  by (cases node) auto

lemma attributes_setChildren: "attributes (setChildren node cs) = attributes node"
  by (cases node) auto

subsection \<open>The inner visitor at one element\<close>

lemma scopeVisitor_cases:
  assumes "scopeVisitor enc names rf node = (element, a, tr, e)"
  obtains (skip) "boundary names node" "element = node" "a = SKIP" "tr = []" "e = None"
  | (keep) "\<not> boundary names node" "element = node" "a = CONTINUE" "tr = []" "e = None"
      "\<forall>n. elementName node = Some n \<longrightarrow> map_of rf n = None"
  | (inherited) n as cs where "node = Flow (Some n) as cs" "n \<notin> names"
      "map_of rf n = None" "n \<in> objectPrototypeKeys" "element = node" "a = CONTINUE"
      "tr = []" "e = Some propertyOfUndefined"
  | (rename) n as cs target where "node = Flow (Some n) as cs" "n \<notin> names"
      "map_of rf n = Some target" "applyFlowRename enc node target = (element, e)"
      "a = CONTINUE" "tr = [([], Renamed target)]"
  using assms
  by (auto simp: scopeVisitor_def boundary_def getProperty_def
        split: node.splits option.splits if_splits prod.splits)

lemma applyFlowRename_cases:
  assumes "applyFlowRename enc (Flow n as cs) target = (element, e)"
  obtains (threw) err where "buildAttributes enc (props (component target)) = Inl err"
      "element = Flow (Some (name (component target))) as cs" "e = Some err"
  | (built) as' where "buildAttributes enc (props (component target)) = Inr as'"
      "element = Flow (Some (name (component target))) as'
                   (if clearsChildren target then [] else cs)" "e = None"
  using assms by (auto split: sum.splits)

lemma scopeVisitor_inherited:
  "n \<notin> names \<Longrightarrow> map_of rf n = None \<Longrightarrow> n \<in> objectPrototypeKeys \<Longrightarrow>
   scopeVisitor enc names rf (Flow (Some n) as cs) =
     (Flow (Some n) as cs, CONTINUE, [], Some propertyOfUndefined)"
  by (simp add: scopeVisitor_def getProperty_def)

subsection \<open>The inner walk, one level\<close>

lemma scopeVisitor_trace:
  "scopeVisitor enc names rf node = (element, a, tr, e) \<Longrightarrow> (q, x) \<in> set tr \<Longrightarrow> q = []"
  by (erule scopeVisitor_cases) auto

lemma scopeVisitor_continue:
  "scopeVisitor enc names rf node = (element, CONTINUE, tr, e) \<Longrightarrow> \<not> boundary names node"
  by (erule scopeVisitor_cases) (auto simp: boundary_def)

lemma innerVisit_head:
  assumes "innerVisit enc names rf node = (node', l, e)" and "(i # p, x) \<in> set l"
  shows "i < length (children node')"
  using assms(1)
proof (cases rule: innerVisit_cases)
  case (stop a)
  with assms(2) scopeVisitor_trace[OF stop(1)] show ?thesis by blast
next
  case (descend element tr cs' l')
  from assms(2) descend(4) scopeVisitor_trace[OF descend(1)] have "(i # p, x) \<in> set l'"
    by auto
  from visitChildren_heads[OF descend(2) this] visitChildren_length[OF descend(2)] descend(3)
  show ?thesis by (auto simp: children_setChildren)
qed

lemma innerVisit_child:
  assumes "innerVisit enc names rf node = (node', l, e)" and "i < length (children node')"
  obtains (visited) li ei where "i < length (children node)"
      "innerVisit enc names rf (children node ! i) = (children node' ! i, li, ei)"
      "\<forall>p x. (i # p, x) \<in> set l \<longleftrightarrow> (p, x) \<in> set li" "\<not> boundary names node"
  | (unvisited) "i < length (children node)" "children node' ! i = children node ! i"
      "\<forall>p x. (i # p, x) \<notin> set l"
  using assms(1)
proof (cases rule: innerVisit_cases)
  case (stop a)
  from scopeVisitor_children[OF stop(1)] assms(2)
  have "children node' = children node" by auto
  moreover have "\<forall>p x. (i # p, x) \<notin> set l"
    using scopeVisitor_trace[OF stop(1)] by blast
  ultimately show ?thesis using assms(2) unvisited by simp
next
  case (descend element tr cs' l')
  have len: "length cs' = length (children element)"
    by (rule visitChildren_length[OF descend(2)])
  with assms(2) descend(3) have i: "i < length (children element)"
    by (simp add: children_setChildren)
  with scopeVisitor_children[OF descend(1)] have ch: "children element = children node"
    by auto
  have tr: "\<And>p x. (i # p, x) \<in> set l \<longleftrightarrow> (i # p, x) \<in> set l'"
    using descend(4) scopeVisitor_trace[OF descend(1)] by auto
  from visitChildren_nth[OF descend(2) i]
  consider (a) li ei where
      "innerVisit enc names rf (children element ! i) = (cs' ! i, li, ei)"
      "\<forall>p x. (i # p, x) \<in> set l' \<longleftrightarrow> (p, x) \<in> set li"
    | (b) "cs' ! i = children element ! i" "\<forall>p x. (i # p, x) \<notin> set l'"
    by auto
  then show ?thesis
  proof cases
    case a
    then show ?thesis
      using visited[of li ei] i ch tr descend(3) scopeVisitor_continue[OF descend(1)]
      by (simp add: children_setChildren)
  next
    case b
    then show ?thesis
      using unvisited i ch tr descend(3) by (simp add: children_setChildren)
  qed
qed

lemma innerVisit_root:
  assumes "innerVisit enc names rf node = (node', l, e)"
  shows "((\<forall>x. ([], x) \<notin> set l) \<and> elementName node' = elementName node \<and>
          attributes node' = attributes node \<and>
          length (children node') = length (children node)) \<or>
         (\<exists>n as cs t. node = Flow (Some n) as cs \<and> n \<notin> names \<and> map_of rf n = Some t \<and>
            (\<forall>x. ([], x) \<in> set l \<longleftrightarrow> x = Renamed t) \<and>
            elementName node' = Some (name (component t)))"
  using assms
proof (cases rule: innerVisit_cases)
  case (stop a)
  from stop(1) show ?thesis
  proof (cases rule: scopeVisitor_cases)
    case (rename n as cs target)
    from rename(4)[unfolded rename(1)] have "elementName node' = Some (name (component target))"
      by (cases rule: applyFlowRename_cases) auto
    with rename show ?thesis by auto
  qed auto
next
  case (descend element tr cs' l')
  have nohead: "\<And>x. ([], x) \<notin> set l'"
    using visitChildren_heads[OF descend(2)] by blast
  have len: "length cs' = length (children element)"
    by (rule visitChildren_length[OF descend(2)])
  from descend(1) show ?thesis
  proof (cases rule: scopeVisitor_cases)
    case skip
    then show ?thesis by simp
  next
    case keep
    with descend(3,4) nohead len show ?thesis
      by (simp add: elementName_setChildren attributes_setChildren children_setChildren)
  next
    case (inherited n as cs)
    with descend(1) show ?thesis by simp
  next
    case (rename n as cs target)
    from rename(4)[unfolded rename(1)] have "elementName element = Some (name (component target))"
      by (cases rule: applyFlowRename_cases) auto
    with rename descend(3,4) nohead show ?thesis
      by (auto simp: elementName_setChildren)
  qed
qed

subsection \<open>The inner walk, by path\<close>

lemma innerVisit_renamed:
  "innerVisit enc names rf node = (node', l, e) \<Longrightarrow> (p, x) \<in> set l \<Longrightarrow>
   \<exists>n as cs t. x = Renamed t \<and> nodeAt node p = Some (Flow (Some n) as cs) \<and> n \<notin> names \<and>
     map_of rf n = Some t \<and>
     (\<forall>q. strict_prefix q p \<longrightarrow> (\<exists>m. nodeAt node q = Some m \<and> \<not> boundary names m))"
proof (induction p arbitrary: node node' l e)
  case Nil
  from innerVisit_root[OF Nil.prems(1)] Nil.prems(2) show ?case by auto
next
  case (Cons i p)
  have i: "i < length (children node')"
    by (rule innerVisit_head[OF Cons.prems])
  from Cons.prems(1) i show ?case
  proof (cases rule: innerVisit_child)
    case (visited li ei)
    with Cons.prems(2) have "(p, x) \<in> set li" by simp
    from Cons.IH[OF visited(2) this] obtain n as cs t where
      t: "x = Renamed t" "nodeAt (children node ! i) p = Some (Flow (Some n) as cs)"
         "n \<notin> names" "map_of rf n = Some t"
         "\<forall>q. strict_prefix q p \<longrightarrow>
            (\<exists>m. nodeAt (children node ! i) q = Some m \<and> \<not> boundary names m)"
      by blast
    have "\<exists>m. nodeAt node q = Some m \<and> \<not> boundary names m" if "strict_prefix q (i # p)" for q
    proof (cases q)
      case Nil
      with visited(4) show ?thesis by simp
    next
      case (Cons j q')
      with that have "j = i" "strict_prefix q' p" by auto
      with t(5) Cons visited(1) show ?thesis by simp
    qed
    with t visited(1) show ?thesis by simp
  next
    case unvisited
    with Cons.prems(2) show ?thesis by blast
  qed
qed

lemma innerVisit_origin:
  "innerVisit enc names rf node = (node', l, e) \<Longrightarrow> nodeAt node' p = Some n' \<Longrightarrow>
   \<exists>n. nodeAt node p = Some n \<and>
     (((\<forall>x. (p, x) \<notin> set l) \<and> elementName n' = elementName n \<and>
        attributes n' = attributes n \<and> length (children n') = length (children n)) \<or>
      (\<exists>t. (p, Renamed t) \<in> set l \<and> elementName n' = Some (name (component t))))"
proof (induction p arbitrary: node node' l e)
  case Nil
  from innerVisit_root[OF Nil.prems(1)] Nil.prems(2) show ?case by auto
next
  case (Cons i p)
  from Cons.prems(2) have i: "i < length (children node')"
    and at: "nodeAt (children node' ! i) p = Some n'"
    by (auto split: if_splits)
  from Cons.prems(1) i show ?case
  proof (cases rule: innerVisit_child)
    case (visited li ei)
    from Cons.IH[OF visited(2) at] visited(1,3) show ?thesis by simp
  next
    case unvisited
    with at show ?thesis by simp
  qed
qed

lemma innerVisit_exists:
  "innerVisit enc names rf node = (node', l, e) \<Longrightarrow> nodeAt node p = None \<Longrightarrow>
   nodeAt node' p = None"
  using innerVisit_origin[of enc names rf node node' l e p]
  by (cases "nodeAt node' p") auto

subsection \<open>The visitor of the outer walk\<close>

lemma createScopeVisitor_root:
  assumes "createScopeVisitor enc registry names node = (node', l, e)"
  shows "(\<forall>x. ([], x) \<notin> set l) \<and> elementName node' = elementName node \<and>
         attributes node' = attributes node \<and>
         length (children node') = length (children node)"
  using assms
proof (cases rule: createScopeVisitor_cases)
  case idle
  then show ?thesis by simp
next
  case (walk n as cs scopeRule rf cs')
  from visitChildren_heads[OF walk(4)] visitChildren_length[OF walk(4)] walk(1,5)
  show ?thesis by auto
qed

lemma createScopeVisitor_head:
  assumes "createScopeVisitor enc registry names node = (node', l, e)" and "(i # p, x) \<in> set l"
  shows "i < length (children node')"
  using assms(1)
proof (cases rule: createScopeVisitor_cases)
  case idle
  with assms(2) show ?thesis by simp
next
  case (walk n as cs scopeRule rf cs')
  from visitChildren_heads[OF walk(4) assms(2)] visitChildren_length[OF walk(4)] walk(5)
  show ?thesis by auto
qed

lemma createScopeVisitor_child:
  assumes "createScopeVisitor enc registry names node = (node', l, e)"
    and "i < length (children node')"
  obtains (visited) n scopeRule rf li ei where "elementName node = Some n"
      "map_of registry n = Some scopeRule" "renameFlow scopeRule = Declared rf"
      "i < length (children node)"
      "innerVisit enc names rf (children node ! i) = (children node' ! i, li, ei)"
      "\<forall>p x. (i # p, x) \<in> set l \<longleftrightarrow> (p, x) \<in> set li"
  | (unvisited) "i < length (children node)" "children node' ! i = children node ! i"
      "\<forall>p x. (i # p, x) \<notin> set l"
  using assms(1)
proof (cases rule: createScopeVisitor_cases)
  case idle
  with assms(2) unvisited show ?thesis by simp
next
  case (walk n as cs scopeRule rf cs')
  have len: "length cs' = length cs" by (rule visitChildren_length[OF walk(4)])
  with assms(2) walk(5) have i: "i < length cs" by simp
  from visitChildren_nth[OF walk(4) i]
  consider (a) li ei where
      "innerVisit enc names rf (cs ! i) = (cs' ! i, li, ei)"
      "\<forall>p x. (i # p, x) \<in> set l \<longleftrightarrow> (p, x) \<in> set li"
    | (b) "cs' ! i = cs ! i" "\<forall>p x. (i # p, x) \<notin> set l"
    by auto
  then show ?thesis
  proof cases
    case a
    then show ?thesis using visited[of n scopeRule rf li ei] walk i by simp
  next
    case b
    then show ?thesis using unvisited walk i by simp
  qed
qed

lemma createScopeVisitor_renamed:
  assumes "createScopeVisitor enc registry names node = (node', l, e)" and "(p, x) \<in> set l"
  shows "\<exists>sn scopeRule rf n as cs t. elementName node = Some sn \<and>
     map_of registry sn = Some scopeRule \<and> renameFlow scopeRule = Declared rf \<and>
     x = Renamed t \<and> p \<noteq> [] \<and> nodeAt node p = Some (Flow (Some n) as cs) \<and> n \<notin> names \<and>
     map_of rf n = Some t \<and>
     (\<forall>q. strict_prefix q p \<and> q \<noteq> [] \<longrightarrow> (\<exists>m. nodeAt node q = Some m \<and> \<not> boundary names m))"
proof (cases p)
  case Nil
  with createScopeVisitor_root[OF assms(1)] assms(2) show ?thesis by blast
next
  case (Cons i p')
  have i: "i < length (children node')"
    using createScopeVisitor_head[OF assms(1)] assms(2) Cons by blast
  from assms(1) i show ?thesis
  proof (cases rule: createScopeVisitor_child)
    case (visited sn scopeRule rf li ei)
    with assms(2) Cons have "(p', x) \<in> set li" by simp
    from innerVisit_renamed[OF visited(5) this] obtain n as cs t where
      t: "x = Renamed t" "nodeAt (children node ! i) p' = Some (Flow (Some n) as cs)"
         "n \<notin> names" "map_of rf n = Some t"
         "\<forall>q. strict_prefix q p' \<longrightarrow>
            (\<exists>m. nodeAt (children node ! i) q = Some m \<and> \<not> boundary names m)"
      by blast
    have "\<exists>m. nodeAt node q = Some m \<and> \<not> boundary names m"
      if "strict_prefix q p" "q \<noteq> []" for q
    proof (cases q)
      case Nil
      with that show ?thesis by simp
    next
      case c: (Cons j q')
      with that Cons have "j = i" "strict_prefix q' p'" by auto
      with t(5) c visited(4) show ?thesis by simp
    qed
    with t visited Cons show ?thesis by simp
  next
    case unvisited
    with assms(2) Cons show ?thesis by blast
  qed
qed

lemma createScopeVisitor_origin:
  assumes "createScopeVisitor enc registry names node = (node', l, e)"
    and "nodeAt node' p = Some n'"
  shows "\<exists>n. nodeAt node p = Some n \<and>
     (((\<forall>x. (p, x) \<notin> set l) \<and> elementName n' = elementName n \<and>
        attributes n' = attributes n \<and> length (children n') = length (children n)) \<or>
      (\<exists>t. (p, Renamed t) \<in> set l \<and> elementName n' = Some (name (component t))))"
proof (cases p)
  case Nil
  with createScopeVisitor_root[OF assms(1)] assms(2) show ?thesis by auto
next
  case (Cons i p')
  with assms(2) have i: "i < length (children node')"
    and at: "nodeAt (children node' ! i) p' = Some n'"
    by (auto split: if_splits)
  from assms(1) i show ?thesis
  proof (cases rule: createScopeVisitor_child)
    case (visited sn scopeRule rf li ei)
    from innerVisit_origin[OF visited(5) at] visited(4,6) Cons show ?thesis by simp
  next
    case unvisited
    with at Cons show ?thesis by simp
  qed
qed

subsection \<open>The outer walk, one level\<close>

declare outerVisit.simps [simp del]

lemma outerVisit_cases:
  assumes "outerVisit enc registry names node = (node', l, e)"
  obtains (stop) tr err where "outerStep enc registry names node = (node', tr, Some err)"
      "l = ([], Tested (shouldProcessScope registry node)) # tr" "e = Some err"
  | (descend) node1 tr cs' l' where "outerStep enc registry names node = (node1, tr, None)"
      "visitChildren (outerVisit enc registry names) 0 (children node1) = (cs', l', e)"
      "node' = setChildren node1 cs'"
      "l = ([], Tested (shouldProcessScope registry node)) # tr @ l'"
proof -
  obtain node1 tr e1 where st: "outerStep enc registry names node = (node1, tr, e1)"
    by (cases "outerStep enc registry names node") auto
  show thesis
  proof (cases e1)
    case (Some err)
    with assms st have "node' = node1 \<and> l = ([], Tested (shouldProcessScope registry node)) # tr
        \<and> e = Some err"
      by (subst (asm) outerVisit.simps) (auto simp: outerStep_def split: if_splits)
    with st Some stop show thesis by blast
  next
    case None
    obtain cs' l' e' where
      v: "visitChildren (outerVisit enc registry names) 0 (children node1) = (cs', l', e')"
      by (cases "visitChildren (outerVisit enc registry names) 0 (children node1)") auto
    with assms st None have "node' = setChildren node1 cs' \<and>
        l = ([], Tested (shouldProcessScope registry node)) # tr @ l' \<and> e = e'"
      by (subst (asm) outerVisit.simps) (auto simp: outerStep_def split: if_splits)
    with st None v descend show thesis by blast
  qed
qed

lemma outerStep_root:
  assumes "outerStep enc registry names node = (node1, tr, e1)"
  shows "(\<forall>x. ([], x) \<notin> set tr) \<and> elementName node1 = elementName node \<and>
         attributes node1 = attributes node \<and>
         length (children node1) = length (children node)"
  using assms createScopeVisitor_root[of enc registry names node node1 tr e1]
  by (auto simp: outerStep_def split: if_splits)

lemma outerStep_renamed:
  assumes "outerStep enc registry names node = (node1, tr, e1)" and "(p, x) \<in> set tr"
  shows "\<exists>sn scopeRule rf n as cs t. elementName node = Some sn \<and>
     sn \<in> activeScopeNames registry \<and>
     map_of registry sn = Some scopeRule \<and> renameFlow scopeRule = Declared rf \<and>
     x = Renamed t \<and> p \<noteq> [] \<and> nodeAt node p = Some (Flow (Some n) as cs) \<and> n \<notin> names \<and>
     map_of rf n = Some t \<and>
     (\<forall>q. strict_prefix q p \<and> q \<noteq> [] \<longrightarrow> (\<exists>m. nodeAt node q = Some m \<and> \<not> boundary names m))"
proof -
  from assms have m: "shouldProcessScope registry node"
    and c: "createScopeVisitor enc registry names node = (node1, tr, e1)"
    by (auto simp: outerStep_def split: if_splits)
  from m have "\<forall>sn. elementName node = Some sn \<longrightarrow> sn \<in> activeScopeNames registry"
    by (auto simp: shouldProcessScope_def split: node.splits option.splits)
  with createScopeVisitor_renamed[OF c assms(2)] show ?thesis by fastforce
qed

lemma outerStep_origin:
  assumes "outerStep enc registry names node = (node1, tr, e1)"
    and "nodeAt node1 p = Some n'"
  shows "\<exists>n. nodeAt node p = Some n \<and>
     (((\<forall>x. (p, x) \<notin> set tr) \<and> elementName n' = elementName n \<and>
        attributes n' = attributes n \<and> length (children n') = length (children n)) \<or>
      (\<exists>t. (p, Renamed t) \<in> set tr \<and> elementName n' = Some (name (component t))))"
  using assms createScopeVisitor_origin[of enc registry names node node1 tr e1 p n']
  by (auto simp: outerStep_def split: if_splits)

lemma outerStep_head:
  assumes "outerStep enc registry names node = (node1, tr, e1)" and "(i # p, x) \<in> set tr"
  shows "i < length (children node1)"
  using assms createScopeVisitor_head[of enc registry names node node1 tr e1 i p x]
  by (auto simp: outerStep_def split: if_splits)

text \<open>
  One level of the outer walk: the step at the node, then the walk of each child of the
  node as the step left it.
\<close>

lemma outerVisit_level:
  assumes "outerVisit enc registry names node = (node', l, e)"
  obtains node1 tr e1 where "outerStep enc registry names node = (node1, tr, e1)"
    "elementName node' = elementName node1" "attributes node' = attributes node1"
    "length (children node') = length (children node1)"
    "\<forall>x. ([], x) \<in> set l \<longleftrightarrow> x = Tested (shouldProcessScope registry node)"
    "\<forall>i p x. (i # p, x) \<in> set l \<longrightarrow> i < length (children node')"
    "\<forall>i < length (children node').
       (\<exists>li ei. outerVisit enc registry names (children node1 ! i) = (children node' ! i, li, ei) \<and>
          (\<forall>p x. (i # p, x) \<in> set l \<longleftrightarrow> (i # p, x) \<in> set tr \<or> (p, x) \<in> set li)) \<or>
       (children node' ! i = children node1 ! i \<and>
          (\<forall>p x. (i # p, x) \<in> set l \<longleftrightarrow> (i # p, x) \<in> set tr))"
  using assms
proof (cases rule: outerVisit_cases)
  case (stop tr err)
  from outerStep_root[OF stop(1)] outerStep_head[OF stop(1)] stop(2)
  show ?thesis by (intro that[OF stop(1)]) auto
next
  case (descend node1 tr cs' l')
  have len: "length cs' = length (children node1)"
    by (rule visitChildren_length[OF descend(2)])
  have nohead: "\<And>x. ([], x) \<notin> set l'"
    using visitChildren_heads[OF descend(2)] by blast
  have heads: "\<And>i p x. (i # p, x) \<in> set l' \<Longrightarrow> i < length (children node1)"
    using visitChildren_heads[OF descend(2)] by fastforce
  have nth: "(\<exists>li ei. outerVisit enc registry names (children node1 ! i) = (cs' ! i, li, ei) \<and>
          (\<forall>p x. (i # p, x) \<in> set l' \<longleftrightarrow> (p, x) \<in> set li)) \<or>
       (cs' ! i = children node1 ! i \<and> (\<forall>p x. (i # p, x) \<notin> set l'))"
    if "i < length (children node1)" for i
    using visitChildren_nth[OF descend(2) that] by auto
  show ?thesis
  proof (rule that[OF descend(1)])
    show "elementName node' = elementName node1" "attributes node' = attributes node1"
      "length (children node') = length (children node1)"
      using descend(3) len
      by (simp_all add: elementName_setChildren attributes_setChildren children_setChildren)
    show "\<forall>x. ([], x) \<in> set l \<longleftrightarrow> x = Tested (shouldProcessScope registry node)"
      using descend(4) nohead outerStep_root[OF descend(1)] by auto
    show "\<forall>i p x. (i # p, x) \<in> set l \<longrightarrow> i < length (children node')"
      using descend(3,4) len heads outerStep_head[OF descend(1)]
      by (auto simp: children_setChildren)
    show "\<forall>i < length (children node').
       (\<exists>li ei. outerVisit enc registry names (children node1 ! i) = (children node' ! i, li, ei) \<and>
          (\<forall>p x. (i # p, x) \<in> set l \<longleftrightarrow> (i # p, x) \<in> set tr \<or> (p, x) \<in> set li)) \<or>
       (children node' ! i = children node1 ! i \<and>
          (\<forall>p x. (i # p, x) \<in> set l \<longleftrightarrow> (i # p, x) \<in> set tr))"
    proof (intro allI impI)
      fix i assume "i < length (children node')"
      with descend(3) len have i: "i < length (children node1)"
        by (simp add: children_setChildren)
      from nth[OF i] descend(3,4) show "(\<exists>li ei. outerVisit enc registry names (children node1 ! i) = (children node' ! i, li, ei) \<and>
          (\<forall>p x. (i # p, x) \<in> set l \<longleftrightarrow> (i # p, x) \<in> set tr \<or> (p, x) \<in> set li)) \<or>
       (children node' ! i = children node1 ! i \<and>
          (\<forall>p x. (i # p, x) \<in> set l \<longleftrightarrow> (i # p, x) \<in> set tr))"
        by (auto simp: children_setChildren)
    qed
  qed
qed

subsection \<open>The outer walk, by path\<close>

lemma outerVisit_exists:
  "outerVisit enc registry names node = (node', l, e) \<Longrightarrow> nodeAt node p = None \<Longrightarrow>
   nodeAt node' p = None \<and> (\<forall>x. (p, x) \<notin> set l)"
proof (induction p arbitrary: node node' l e)
  case Nil
  then show ?case by simp
next
  case (Cons i p)
  from Cons.prems(1) obtain node1 tr e1 where
    st: "outerStep enc registry names node = (node1, tr, e1)"
    and len: "length (children node') = length (children node1)"
    and heads: "\<forall>i p x. (i # p, x) \<in> set l \<longrightarrow> i < length (children node')"
    and lev: "\<forall>i < length (children node').
       (\<exists>li ei. outerVisit enc registry names (children node1 ! i) = (children node' ! i, li, ei) \<and>
          (\<forall>p x. (i # p, x) \<in> set l \<longleftrightarrow> (i # p, x) \<in> set tr \<or> (p, x) \<in> set li)) \<or>
       (children node' ! i = children node1 ! i \<and>
          (\<forall>p x. (i # p, x) \<in> set l \<longleftrightarrow> (i # p, x) \<in> set tr))"
    by (rule outerVisit_level)
  have none1: "nodeAt node1 (i # p) = None"
    using outerStep_origin[OF st, of "i # p"] Cons.prems(2)
    by (cases "nodeAt node1 (i # p)") auto
  have notr: "\<And>x. (i # p, x) \<notin> set tr"
    using outerStep_renamed[OF st, of "i # p"] Cons.prems(2) by fastforce
  show ?case
  proof (cases "i < length (children node')")
    case False
    with heads show ?thesis by auto
  next
    case True
    with len none1 have sub: "nodeAt (children node1 ! i) p = None" by simp
    from lev True have "(\<exists>li ei. outerVisit enc registry names (children node1 ! i) = (children node' ! i, li, ei) \<and>
          (\<forall>p x. (i # p, x) \<in> set l \<longleftrightarrow> (i # p, x) \<in> set tr \<or> (p, x) \<in> set li)) \<or>
       (children node' ! i = children node1 ! i \<and>
          (\<forall>p x. (i # p, x) \<in> set l \<longleftrightarrow> (i # p, x) \<in> set tr))"
      by blast
    then show ?thesis
    proof (elim disjE exE conjE)
      fix li ei
      assume ov: "outerVisit enc registry names (children node1 ! i) = (children node' ! i, li, ei)"
        and ent: "\<forall>p x. (i # p, x) \<in> set l \<longleftrightarrow> (i # p, x) \<in> set tr \<or> (p, x) \<in> set li"
      from Cons.IH[OF ov sub] ent notr True show ?thesis by simp
    next
      assume "children node' ! i = children node1 ! i"
        and "\<forall>p x. (i # p, x) \<in> set l \<longleftrightarrow> (i # p, x) \<in> set tr"
      with sub notr True show ?thesis by simp
    qed
  qed
qed

lemma outerStep_target:
  assumes "outerStep enc registry names node = (node1, tr, e1)" and "(p, Renamed t) \<in> set tr"
  shows "t \<in> renameTargets registry"
proof -
  from outerStep_renamed[OF assms] obtain sn scopeRule rf n where
    "map_of registry sn = Some scopeRule" "renameFlow scopeRule = Declared rf"
    "map_of rf n = Some t"
    by blast
  then have "(sn, scopeRule) \<in> set registry" "(n, t) \<in> set rf"
    by (auto dest: map_of_SomeD)
  with \<open>renameFlow scopeRule = Declared rf\<close> show ?thesis
    by (auto simp: renameTargets_def)
qed

lemma outerStep_scope:
  assumes "outerStep enc registry names node = (node1, tr, e1)" and "(p, x) \<in> set tr"
    and "nodeAt node p = Some m" and "elementName m = Some tag"
  shows "\<exists>sn. elementName node = Some sn \<and> sn \<in> scopesRenaming registry tag"
proof -
  from outerStep_renamed[OF assms(1,2)] obtain sn scopeRule rf n as cs t where
    f: "elementName node = Some sn" "map_of registry sn = Some scopeRule"
       "renameFlow scopeRule = Declared rf" "nodeAt node p = Some (Flow (Some n) as cs)"
       "map_of rf n = Some t"
    by blast
  with assms(3,4) have "n = tag" by auto
  with f have "(sn, scopeRule) \<in> set registry" "(tag, t) \<in> set rf"
    by (auto dest: map_of_SomeD)
  with f(1,3) show ?thesis by (auto simp: scopesRenaming_def)
qed

lemma outerVisit_frame:
  assumes only: "scopesRenaming registry tag \<subseteq> {scope}"
    and fresh: "\<forall>t \<in> renameTargets registry. name (component t) \<noteq> scope"
  shows "outerVisit enc registry names node = (node', l, e) \<Longrightarrow>
    nodeAt node p = Some (Flow (Some tag) as cs) \<Longrightarrow>
    (\<forall>q m. strict_prefix q p \<and> nodeAt node q = Some m \<longrightarrow> elementName m \<noteq> Some scope) \<Longrightarrow>
    (\<forall>x. (p, x) \<in> set l \<longrightarrow> (\<exists>b. x = Tested b)) \<and>
    (nodeAt node' p = None \<or>
     (\<exists>cs'. nodeAt node' p = Some (Flow (Some tag) as cs') \<and> length cs' = length cs))"
proof (induction p arbitrary: node node' l e cs)
  case Nil
  from Nil.prems(1) obtain node1 tr e1 where
    st: "outerStep enc registry names node = (node1, tr, e1)"
    and nm: "elementName node' = elementName node1" "attributes node' = attributes node1"
      "length (children node') = length (children node1)"
    and root: "\<forall>x. ([], x) \<in> set l \<longleftrightarrow> x = Tested (shouldProcessScope registry node)"
    by (rule outerVisit_level)
  from outerStep_root[OF st] nm Nil.prems(2)
  have "elementName node' = Some tag" "attributes node' = as"
    "length (children node') = length cs"
    by auto
  then have "\<exists>cs'. node' = Flow (Some tag) as cs' \<and> length cs' = length cs"
    by (cases node') auto
  with root show ?case by auto
next
  case (Cons i p)
  from Cons.prems(1) obtain node1 tr e1 where
    st: "outerStep enc registry names node = (node1, tr, e1)"
    and len: "length (children node') = length (children node1)"
    and heads: "\<forall>i p x. (i # p, x) \<in> set l \<longrightarrow> i < length (children node')"
    and lev: "\<forall>i < length (children node').
       (\<exists>li ei. outerVisit enc registry names (children node1 ! i) = (children node' ! i, li, ei) \<and>
          (\<forall>p x. (i # p, x) \<in> set l \<longleftrightarrow> (i # p, x) \<in> set tr \<or> (p, x) \<in> set li)) \<or>
       (children node' ! i = children node1 ! i \<and>
          (\<forall>p x. (i # p, x) \<in> set l \<longleftrightarrow> (i # p, x) \<in> set tr))"
    by (rule outerVisit_level)
  have root: "elementName node \<noteq> Some scope"
    using Cons.prems(3)[rule_format, of "[]" node] by simp
  have notr: "(i # p, x) \<notin> set tr" for x
  proof
    assume "(i # p, x) \<in> set tr"
    from outerStep_scope[OF st this Cons.prems(2)] only root show False by auto
  qed
  have at1: "nodeAt node1 (i # p) = None \<or>
     (\<exists>cs1. nodeAt node1 (i # p) = Some (Flow (Some tag) as cs1) \<and> length cs1 = length cs)"
  proof (cases "nodeAt node1 (i # p)")
    case None
    then show ?thesis by simp
  next
    case (Some n1)
    from outerStep_origin[OF st Some] Cons.prems(2) notr
    have "elementName n1 = Some tag" "attributes n1 = as" "length (children n1) = length cs"
      by auto
    then have "\<exists>cs1. n1 = Flow (Some tag) as cs1 \<and> length cs1 = length cs"
      by (cases n1) auto
    with Some show ?thesis by simp
  qed
  have above1: "elementName m1 \<noteq> Some scope"
    if "strict_prefix q (i # p)" "nodeAt node1 q = Some m1" for q m1
  proof -
    from outerStep_origin[OF st that(2)] obtain m where m: "nodeAt node q = Some m"
      and alt: "elementName m1 = elementName m \<or>
        (\<exists>t. (q, Renamed t) \<in> set tr \<and> elementName m1 = Some (name (component t)))"
      by blast
    from alt show ?thesis
    proof
      assume "elementName m1 = elementName m"
      with Cons.prems(3) that(1) m show ?thesis by auto
    next
      assume "\<exists>t. (q, Renamed t) \<in> set tr \<and> elementName m1 = Some (name (component t))"
      then obtain t where "(q, Renamed t) \<in> set tr" "elementName m1 = Some (name (component t))"
        by blast
      with outerStep_target[OF st] fresh show ?thesis by auto
    qed
  qed
  show ?case
  proof (cases "i < length (children node')")
    case False
    with heads show ?thesis by auto
  next
    case True
    with len have i1: "i < length (children node1)" by simp
    from lev True have "(\<exists>li ei. outerVisit enc registry names (children node1 ! i) = (children node' ! i, li, ei) \<and>
          (\<forall>p x. (i # p, x) \<in> set l \<longleftrightarrow> (i # p, x) \<in> set tr \<or> (p, x) \<in> set li)) \<or>
       (children node' ! i = children node1 ! i \<and>
          (\<forall>p x. (i # p, x) \<in> set l \<longleftrightarrow> (i # p, x) \<in> set tr))"
      by blast
    then show ?thesis
    proof (elim disjE exE conjE)
      fix li ei
      assume ov: "outerVisit enc registry names (children node1 ! i) = (children node' ! i, li, ei)"
        and ent: "\<forall>p x. (i # p, x) \<in> set l \<longleftrightarrow> (i # p, x) \<in> set tr \<or> (p, x) \<in> set li"
      from at1 show ?thesis
      proof
        assume "nodeAt node1 (i # p) = None"
        with i1 have "nodeAt (children node1 ! i) p = None" by simp
        from outerVisit_exists[OF ov this] ent notr True show ?thesis by simp
      next
        assume "\<exists>cs1. nodeAt node1 (i # p) = Some (Flow (Some tag) as cs1) \<and>
                  length cs1 = length cs"
        then obtain cs1 where
          c1: "nodeAt (children node1 ! i) p = Some (Flow (Some tag) as cs1)"
          and l1: "length cs1 = length cs"
          using i1 by auto
        have "\<forall>q m. strict_prefix q p \<and> nodeAt (children node1 ! i) q = Some m \<longrightarrow>
                elementName m \<noteq> Some scope"
          using above1[of "i # q" for q] i1 by auto
        from Cons.IH[OF ov c1 this] ent notr True l1 show ?thesis by simp
      qed
    next
      assume "children node' ! i = children node1 ! i"
        and "\<forall>p x. (i # p, x) \<in> set l \<longleftrightarrow> (i # p, x) \<in> set tr"
      with at1 notr True i1 show ?thesis by simp
    qed
  qed
qed

lemma visitChildren_untouched:
  "visitChildren walk offset cs = (cs', l, e) \<Longrightarrow> l = [] \<Longrightarrow>
   (\<And>c c' ec. c \<in> set cs \<Longrightarrow> walk c = (c', [], ec) \<Longrightarrow> c' = c) \<Longrightarrow> cs' = cs"
proof (induction cs arbitrary: offset cs' l e)
  case Nil
  then show ?case by simp
next
  case (Cons c cs)
  obtain c' lc ec where w: "walk c = (c', lc, ec)" by (cases "walk c") auto
  show ?case
  proof (cases ec)
    case (Some err)
    with w Cons.prems(1,2) have "cs' = c' # cs" "lc = []" by (auto simp: below_Nil)
    with w Cons.prems(3)[of c c' ec] show ?thesis by simp
  next
    case None
    obtain r lr er where r: "visitChildren walk (Suc offset) cs = (r, lr, er)"
      by (cases "visitChildren walk (Suc offset) cs") auto
    with w None Cons.prems(1,2) have eq: "cs' = c' # r" "lc = []" "lr = []"
      by (auto simp: below_Nil)
    have "r = cs" using Cons.IH[OF r eq(3)] Cons.prems(3) by auto
    with eq w Cons.prems(3)[of c c' ec] show ?thesis by simp
  qed
qed

lemma setChildren_children: "setChildren node (children node) = node"
  by (cases node) auto

lemma innerVisit_untouched:
  "innerVisit enc names rf node = (node', l, e) \<Longrightarrow> l = [] \<Longrightarrow> node' = node"
proof (induction "weight node" arbitrary: node node' l e rule: less_induct)
  case less
  from less.prems(1) show ?case
  proof (cases rule: innerVisit_cases)
    case (stop a)
    from stop(1) less.prems(2) show ?thesis
      by (cases rule: scopeVisitor_cases) auto
  next
    case (descend element tr cs' l')
    with less.prems(2) have tr: "tr = []" and l': "l' = []" by auto
    from descend(1) tr have el: "element = node"
      by (cases rule: scopeVisitor_cases) auto
    have "cs' = children node"
      using visitChildren_untouched[OF descend(2)[unfolded el] l'] less.hyps weight_child
      by blast
    with descend(3) el show ?thesis by (simp add: setChildren_children)
  qed
qed

lemma innerVisit_subtree:
  "innerVisit enc names rf node = (node', l, e) \<Longrightarrow>
   (\<forall>p x. (p, x) \<in> set l \<longrightarrow> \<not> prefix q p) \<Longrightarrow>
   nodeAt node' q = None \<or> nodeAt node' q = nodeAt node q"
proof (induction q arbitrary: node node' l e)
  case Nil
  then have "l = []" by (cases l) auto
  from innerVisit_untouched[OF Nil.prems(1) this] show ?case by simp
next
  case (Cons i q)
  show ?case
  proof (cases "i < length (children node')")
    case False
    then show ?thesis by simp
  next
    case True
    from Cons.prems(1) True show ?thesis
    proof (cases rule: innerVisit_child)
      case (visited li ei)
      have "\<not> prefix q p" if "(p, x) \<in> set li" for p x
      proof -
        from that visited(3) have "(i # p, x) \<in> set l" by simp
        with Cons.prems(2) have "\<not> prefix (i # q) (i # p)" by blast
        then show ?thesis by simp
      qed
      then have "\<forall>p x. (p, x) \<in> set li \<longrightarrow> \<not> prefix q p" by blast
      from Cons.IH[OF visited(2) this] True visited(1) show ?thesis by simp
    next
      case unvisited
      with True show ?thesis by simp
    qed
  qed
qed

lemma createScopeVisitor_subtree:
  assumes "createScopeVisitor enc registry names node = (node', l, e)"
    and "\<forall>p x. (p, x) \<in> set l \<longrightarrow> \<not> prefix q p" and "q \<noteq> []"
  shows "nodeAt node' q = None \<or> nodeAt node' q = nodeAt node q"
proof -
  from assms(3) obtain i q' where q: "q = i # q'" by (cases q) auto
  show ?thesis
  proof (cases "i < length (children node')")
    case False
    with q show ?thesis by simp
  next
    case True
    from assms(1) True show ?thesis
    proof (cases rule: createScopeVisitor_child)
      case (visited n scopeRule rf li ei)
      have "\<not> prefix q' p" if "(p, x) \<in> set li" for p x
      proof -
        from that visited(6) have "(i # p, x) \<in> set l" by simp
        with assms(2) q have "\<not> prefix (i # q') (i # p)" by blast
        then show ?thesis by simp
      qed
      then have "\<forall>p x. (p, x) \<in> set li \<longrightarrow> \<not> prefix q' p" by blast
      from innerVisit_subtree[OF visited(5) this] True visited(4) q show ?thesis by simp
    next
      case unvisited
      with True q show ?thesis by simp
    qed
  qed
qed

subsection \<open>Throws and the trace\<close>

lemma clean_Nil: "clean enc []"
  by (simp add: clean_def)

lemma clean_append: "clean enc (a @ b) \<longleftrightarrow> clean enc a \<and> clean enc b"
  by (auto simp: clean_def)

lemma clean_below: "clean enc (below i l) \<longleftrightarrow> clean enc l"
  by (auto simp: clean_def in_below)

lemma clean_Tested: "clean enc ((p, Tested b) # l) \<longleftrightarrow> clean enc l"
  by (auto simp: clean_def)

lemma orderly_Nil: "orderly enc [] None"
  by (simp add: orderly_def clean_Nil)

lemma below_append: "below i (a @ b) = below i a @ below i b"
  by (simp add: below_def)

lemma orderly_below: "orderly enc l e \<Longrightarrow> orderly enc (below i l) e"
proof (cases e)
  case None
  assume "orderly enc l e"
  with None show ?thesis by (simp add: orderly_def clean_below)
next
  case (Some err)
  assume "orderly enc l e"
  with Some consider
      (rename) l0 p t where "l = l0 @ [(p, Renamed t)]" "failsWith enc t err" "clean enc l0"
    | (inherited) "err = propertyOfUndefined" "clean enc l"
    by (auto simp: orderly_def)
  then show ?thesis
  proof cases
    case rename
    have "below i l = below i l0 @ [(i # p, Renamed t)]"
      using rename(1) by (simp add: below_def)
    with rename(2,3) Some show ?thesis
      unfolding orderly_def by (simp only: option.case clean_below[symmetric, of enc l0 i]) blast
  next
    case inherited
    with Some show ?thesis by (simp add: orderly_def clean_below)
  qed
qed

lemma orderly_append:
  assumes "orderly enc l None" and "orderly enc l' e"
  shows "orderly enc (l @ l') e"
proof (cases e)
  case None
  with assms show ?thesis by (simp add: orderly_def clean_append)
next
  case (Some err)
  from assms(1) have c: "clean enc l" by (simp add: orderly_def)
  from assms(2) Some consider
      (rename) l0 p t where "l' = l0 @ [(p, Renamed t)]" "failsWith enc t err" "clean enc l0"
    | (inherited) "err = propertyOfUndefined" "clean enc l'"
    by (auto simp: orderly_def)
  then show ?thesis
  proof cases
    case rename
    have "l @ l' = (l @ l0) @ [(p, Renamed t)]" using rename(1) by simp
    moreover have "clean enc (l @ l0)" using c rename(3) by (simp add: clean_append)
    ultimately show ?thesis
      using Some rename(2) unfolding orderly_def by (simp only: option.case) blast
  next
    case inherited
    with Some c show ?thesis by (simp add: orderly_def clean_append)
  qed
qed

lemma orderly_Tested:
  assumes "orderly enc l e"
  shows "orderly enc ((p, Tested b) # l) e"
proof -
  have "orderly enc [(p, Tested b)] None" by (simp add: orderly_def clean_def)
  from orderly_append[OF this assms] show ?thesis by simp
qed

lemma visitChildren_orderly:
  "visitChildren walk offset cs = (cs', l, e) \<Longrightarrow>
   (\<And>c c' lc ec. c \<in> set cs \<Longrightarrow> walk c = (c', lc, ec) \<Longrightarrow> orderly enc lc ec) \<Longrightarrow>
   orderly enc l e"
proof (induction cs arbitrary: offset cs' l e)
  case Nil
  then show ?case by (simp add: orderly_Nil)
next
  case (Cons c cs)
  obtain c' lc ec where w: "walk c = (c', lc, ec)" by (cases "walk c") auto
  have oc: "orderly enc lc ec" using Cons.prems(2)[OF _ w] by simp
  show ?case
  proof (cases ec)
    case (Some err)
    with w Cons.prems(1) oc show ?thesis by (auto intro: orderly_below)
  next
    case None
    obtain r lr er where r: "visitChildren walk (Suc offset) cs = (r, lr, er)"
      by (cases "visitChildren walk (Suc offset) cs") auto
    have "orderly enc lr er" using Cons.IH[OF r] Cons.prems(2) by auto
    with w None r Cons.prems(1) oc show ?thesis
      by (auto intro!: orderly_append orderly_below)
  qed
qed

lemma scopeVisitor_orderly:
  assumes "scopeVisitor enc names rf node = (element, a, tr, e)"
  shows "orderly enc tr e"
  using assms
proof (cases rule: scopeVisitor_cases)
  case (rename n as cs target)
  from rename(4)[unfolded rename(1)] show ?thesis
  proof (cases rule: applyFlowRename_cases)
    case (threw err)
    have "tr = [] @ [([], Renamed target)]" using rename(6) by simp
    with threw show ?thesis
      unfolding orderly_def by (simp only: option.case) (auto simp: failsWith_def clean_Nil)
  next
    case (built as')
    with rename(6) show ?thesis by (auto simp: orderly_def clean_def failsWith_def)
  qed
next
  case (inherited n as cs)
  then show ?thesis by (simp add: orderly_def clean_Nil)
qed (simp_all add: orderly_Nil)

lemma innerVisit_orderly:
  "innerVisit enc names rf node = (node', l, e) \<Longrightarrow> orderly enc l e"
proof (induction "weight node" arbitrary: node node' l e rule: less_induct)
  case less
  from less.prems show ?case
  proof (cases rule: innerVisit_cases)
    case (stop a)
    then show ?thesis by (simp add: scopeVisitor_orderly)
  next
    case (descend element tr cs' l')
    have sub: "set (children element) \<subseteq> set (children node)"
      using scopeVisitor_children[OF descend(1)] by auto
    have "orderly enc l' e"
      using visitChildren_orderly[OF descend(2)] less.hyps sub weight_child[of _ node] by blast
    with scopeVisitor_orderly[OF descend(1)] descend(4) show ?thesis
      by (simp add: orderly_append)
  qed
qed

lemma outerStep_orderly:
  assumes "outerStep enc registry names node = (node1, tr, e1)"
  shows "orderly enc tr e1"
proof (cases "shouldProcessScope registry node")
  case False
  with assms show ?thesis by (simp add: outerStep_def orderly_Nil)
next
  case True
  with assms have "createScopeVisitor enc registry names node = (node1, tr, e1)"
    by (simp add: outerStep_def)
  then show ?thesis
  proof (cases rule: createScopeVisitor_cases)
    case idle
    then show ?thesis by (simp add: orderly_Nil)
  next
    case (walk n as cs scopeRule rf cs')
    from visitChildren_orderly[OF walk(4)] innerVisit_orderly show ?thesis by blast
  qed
qed

lemma outerStep_children:
  assumes "outerStep enc registry names node = (node1, tr, e1)" and "c \<in> set (children node1)"
  shows "weight c < weight node"
  using assms createScopeVisitor_children[of enc registry names node node1 tr e1 c]
  by (auto simp: outerStep_def weight_child split: if_splits)

lemma outerVisit_orderly:
  "outerVisit enc registry names node = (node', l, e) \<Longrightarrow> orderly enc l e"
proof (induction "weight node" arbitrary: node node' l e rule: less_induct)
  case less
  from less.prems show ?case
  proof (cases rule: outerVisit_cases)
    case (stop tr err)
    from outerStep_orderly[OF stop(1)] have o: "orderly enc tr (Some err)" .
    with stop(2,3) show ?thesis by (simp add: orderly_Tested)
  next
    case (descend node1 tr cs' l')
    have "orderly enc l' e"
      using visitChildren_orderly[OF descend(2)] less.hyps outerStep_children[OF descend(1)]
      by blast
    with outerStep_orderly[OF descend(1)] have o: "orderly enc (tr @ l') e"
      by (simp add: orderly_append)
    with descend(4) show ?thesis by (simp add: orderly_Tested)
  qed
qed

lemma buildAttributesLoop_first_failure:
  assumes "\<forall>(n', v') \<in> set pre. v' = JUndefined \<or> v' = JBool True \<or> (\<exists>ex. enc v' = Inr ex)"
    and "v \<noteq> JUndefined" and "v \<noteq> JBool True" and "enc v = Inl err"
  shows "buildAttributesLoop enc (pre @ (propName, v) # post) acc =
         Inl (Error (serializationMessage propName (errorMessage err)))"
  using assms(1)
proof (induction pre arbitrary: acc)
  case Nil
  with assms(2-4) show ?case
    by (simp add: toMdxAttribute_def createAttributeValueExpression_def)
next
  case (Cons a pre)
  obtain n' v' where a: "a = (n', v')" by (cases a)
  from Cons.prems a have "v' = JUndefined \<or> v' = JBool True \<or> (\<exists>ex. enc v' = Inr ex)"
    by simp
  then show ?case
    using Cons.IH Cons.prems a
    by (auto simp: toMdxAttribute_def createAttributeValueExpression_def)
qed

subsection \<open>The nodes the outer walk tests\<close>

lemma paths_eq: "paths node = [] # pathsFrom 0 (children node)"
  by (cases node) auto

lemma tested_append: "tested (a @ b) = tested a @ tested b"
  by (induction a rule: tested.induct) auto

lemma tested_below: "tested (below i l) = map ((#) i) (tested l)"
  by (induction l rule: tested.induct) (auto simp: below_def)

lemma tested_renames: "(\<And>p x. (p, x) \<in> set l \<Longrightarrow> \<exists>t. x = Renamed t) \<Longrightarrow> tested l = []"
proof (induction l rule: tested.induct)
  case (2 p b l)
  from 2(2)[of p "Tested b"] show ?case by simp
qed auto

lemma pathsFrom_heads: "q \<in> set (pathsFrom offset cs) \<Longrightarrow> \<exists>i p. q = (offset + i) # p"
proof (induction cs arbitrary: offset)
  case Nil
  then show ?case by simp
next
  case (Cons c cs)
  from Cons.prems have "q \<in> (#) offset ` set (paths c) \<or> q \<in> set (pathsFrom (Suc offset) cs)"
    by auto
  then show ?case
  proof
    assume "q \<in> (#) offset ` set (paths c)"
    then obtain p where "q = (offset + 0) # p" by auto
    then show ?thesis by blast
  next
    assume "q \<in> set (pathsFrom (Suc offset) cs)"
    from Cons.IH[OF this] obtain i p where "q = (offset + Suc i) # p" by auto
    then show ?thesis by blast
  qed
qed

lemma distinct_paths:
  "distinct (paths (node :: 'e node))"
  "distinct (pathsFrom offset (cs :: 'e node list))"
proof (induction node and offset cs rule: paths_pathsFrom.induct)
  case (1 n as cs)
  then show ?case using pathsFrom_heads[of "[]" 0 cs] by auto
next
  case (2 k cs)
  then show ?case using pathsFrom_heads[of "[]" 0 cs] by auto
next
  case (3 offset)
  then show ?case by simp
next
  case (4 offset c cs)
  have "(#) offset ` set (paths c) \<inter> set (pathsFrom (Suc offset) cs) = {}"
    using pathsFrom_heads[of _ "Suc offset" cs] by fastforce
  with 4 show ?case by (simp add: distinct_map)
qed

lemma visitChildren_completes:
  "visitChildren walk offset cs = (cs', l, None) \<Longrightarrow> c \<in> set cs \<Longrightarrow>
   \<exists>c' lc. walk c = (c', lc, None)"
proof (induction cs arbitrary: offset cs' l)
  case Nil
  then show ?case by simp
next
  case (Cons a cs)
  obtain a' la ea where w: "walk a = (a', la, ea)" by (cases "walk a") auto
  with Cons.prems(1) have ea: "ea = None" by (cases ea) auto
  obtain r lr er where r: "visitChildren walk (Suc offset) cs = (r, lr, er)"
    by (cases "visitChildren walk (Suc offset) cs") auto
  with w ea Cons.prems(1) have "er = None" by simp
  with Cons.IH[OF r[unfolded this]] Cons.prems(2) w ea show ?case by auto
qed

lemma visitChildren_tested:
  "visitChildren walk offset cs = (cs', l, None) \<Longrightarrow>
   (\<And>c c' lc. c \<in> set cs \<Longrightarrow> walk c = (c', lc, None) \<Longrightarrow> tested lc = paths c') \<Longrightarrow>
   tested l = pathsFrom offset cs'"
proof (induction cs arbitrary: offset cs' l)
  case Nil
  then show ?case by simp
next
  case (Cons a cs)
  obtain a' la ea where w: "walk a = (a', la, ea)" by (cases "walk a") auto
  with Cons.prems(1) have ea: "ea = None" by (cases ea) auto
  obtain r lr er where r: "visitChildren walk (Suc offset) cs = (r, lr, er)"
    by (cases "visitChildren walk (Suc offset) cs") auto
  with w ea Cons.prems(1) have eq: "er = None" "cs' = a' # r" "l = below offset la @ lr"
    by simp_all
  have "tested lr = pathsFrom (Suc offset) r"
    using Cons.IH[OF r[unfolded eq(1)]] Cons.prems(2) by auto
  moreover have "tested la = paths a'"
    using Cons.prems(2)[of a a' la] w ea by simp
  ultimately show ?case using eq by (simp add: tested_append tested_below)
qed

lemma outerStep_events:
  assumes "outerStep enc registry names node = (node1, tr, e1)"
  shows "tested tr = []"
  using outerStep_renamed[OF assms] by (intro tested_renames) blast

lemma outerVisit_tested:
  "outerVisit enc registry names node = (node', l, None) \<Longrightarrow> tested l = paths node'"
proof (induction "weight node" arbitrary: node node' l rule: less_induct)
  case less
  from less.prems show ?case
  proof (cases rule: outerVisit_cases)
    case (stop tr err)
    then show ?thesis by simp
  next
    case (descend node1 tr cs' l')
    have "tested l' = pathsFrom 0 cs'"
      using visitChildren_tested[OF descend(2)] less.hyps outerStep_children[OF descend(1)]
      by blast
    with descend(3,4) outerStep_events[OF descend(1)] show ?thesis
      by (simp add: tested_append paths_eq[of "setChildren node1 cs'"] children_setChildren)
  qed
qed

lemma shouldProcessScope_name:
  "elementName a = elementName b \<Longrightarrow> shouldProcessScope registry a = shouldProcessScope registry b"
  by (cases a; cases b) (auto simp: shouldProcessScope_def split: option.splits)

lemma outerVisit_matched:
  "outerVisit enc registry names node = (node', l, e) \<Longrightarrow> (p, Tested b) \<in> set l \<Longrightarrow>
   \<exists>n. nodeAt node' p = Some n \<and> b = shouldProcessScope registry n"
proof (induction p arbitrary: node node' l e)
  case Nil
  from Nil.prems(1) obtain node1 tr e1 where
    st: "outerStep enc registry names node = (node1, tr, e1)"
    and nm: "elementName node' = elementName node1"
    and root: "\<forall>x. ([], x) \<in> set l \<longleftrightarrow> x = Tested (shouldProcessScope registry node)"
    by (rule outerVisit_level)
  from outerStep_root[OF st] nm have "elementName node' = elementName node" by simp
  from shouldProcessScope_name[OF this] root Nil.prems(2) show ?case by auto
next
  case (Cons i p)
  from Cons.prems(1) obtain node1 tr e1 where
    st: "outerStep enc registry names node = (node1, tr, e1)"
    and heads: "\<forall>i p x. (i # p, x) \<in> set l \<longrightarrow> i < length (children node')"
    and lev: "\<forall>i < length (children node').
       (\<exists>li ei. outerVisit enc registry names (children node1 ! i) = (children node' ! i, li, ei) \<and>
          (\<forall>p x. (i # p, x) \<in> set l \<longleftrightarrow> (i # p, x) \<in> set tr \<or> (p, x) \<in> set li)) \<or>
       (children node' ! i = children node1 ! i \<and>
          (\<forall>p x. (i # p, x) \<in> set l \<longleftrightarrow> (i # p, x) \<in> set tr))"
    by (rule outerVisit_level)
  have notr: "(i # p, Tested b) \<notin> set tr"
    using outerStep_renamed[OF st, of "i # p" "Tested b"] by auto
  from heads Cons.prems(2) have i: "i < length (children node')" by blast
  with lev have "(\<exists>li ei. outerVisit enc registry names (children node1 ! i) = (children node' ! i, li, ei) \<and>
          (\<forall>p x. (i # p, x) \<in> set l \<longleftrightarrow> (i # p, x) \<in> set tr \<or> (p, x) \<in> set li)) \<or>
       (children node' ! i = children node1 ! i \<and>
          (\<forall>p x. (i # p, x) \<in> set l \<longleftrightarrow> (i # p, x) \<in> set tr))"
    by blast
  then show ?case
  proof (elim disjE exE conjE)
    fix li ei
    assume ov: "outerVisit enc registry names (children node1 ! i) = (children node' ! i, li, ei)"
      and ent: "\<forall>p x. (i # p, x) \<in> set l \<longleftrightarrow> (i # p, x) \<in> set tr \<or> (p, x) \<in> set li"
    from ent Cons.prems(2) notr have "(p, Tested b) \<in> set li" by blast
    from Cons.IH[OF ov this] i show ?thesis by simp
  next
    assume "\<forall>p x. (i # p, x) \<in> set l \<longleftrightarrow> (i # p, x) \<in> set tr"
    with Cons.prems(2) notr show ?thesis by blast
  qed
qed

subsection \<open>Renames at distinct nodes\<close>

lemma renamed_append: "renamed (a @ b) = renamed a @ renamed b"
  by (induction a rule: renamed.induct) auto

lemma renamed_below: "renamed (below i l) = map ((#) i) (renamed l)"
  by (induction l rule: renamed.induct) (auto simp: below_def)

lemma set_renamed: "p \<in> set (renamed l) \<longleftrightarrow> (\<exists>t. (p, Renamed t) \<in> set l)"
  by (induction l rule: renamed.induct) auto

lemma visitChildren_distinct:
  "visitChildren walk offset cs = (cs', l, e) \<Longrightarrow>
   (\<And>c c' lc ec. c \<in> set cs \<Longrightarrow> walk c = (c', lc, ec) \<Longrightarrow> distinct (renamed lc)) \<Longrightarrow>
   distinct (renamed l)"
proof (induction cs arbitrary: offset cs' l e)
  case Nil
  then show ?case by simp
next
  case (Cons c cs)
  obtain c' lc ec where w: "walk c = (c', lc, ec)" by (cases "walk c") auto
  have dc: "distinct (renamed lc)" using Cons.prems(2)[OF _ w] by simp
  show ?case
  proof (cases ec)
    case (Some err)
    with w Cons.prems(1) dc show ?thesis
      by (auto simp: renamed_below distinct_map)
  next
    case None
    obtain r lr er where r: "visitChildren walk (Suc offset) cs = (r, lr, er)"
      by (cases "visitChildren walk (Suc offset) cs") auto
    have dr: "distinct (renamed lr)" using Cons.IH[OF r] Cons.prems(2) by auto
    have "(#) offset ` set (renamed lc) \<inter> set (renamed lr) = {}"
    proof -
      have "offset # p \<notin> set (renamed lr)" for p
        using visitChildren_heads[OF r, of "offset # p"] by (auto simp: set_renamed)
      then show ?thesis by blast
    qed
    with w None r Cons.prems(1) dc dr show ?thesis
      by (auto simp: renamed_append renamed_below distinct_map)
  qed
qed

lemma scopeVisitor_single:
  "scopeVisitor enc names rf node = (element, a, tr, e) \<Longrightarrow>
   renamed tr = [] \<or> renamed tr = [[]]"
  by (erule scopeVisitor_cases) auto

lemma innerVisit_distinct:
  "innerVisit enc names rf node = (node', l, e) \<Longrightarrow> distinct (renamed l)"
proof (induction "weight node" arbitrary: node node' l e rule: less_induct)
  case less
  from less.prems show ?case
  proof (cases rule: innerVisit_cases)
    case (stop a)
    from scopeVisitor_single[OF stop(1)] show ?thesis by auto
  next
    case (descend element tr cs' l')
    have sub: "set (children element) \<subseteq> set (children node)"
      using scopeVisitor_children[OF descend(1)] by auto
    have d: "distinct (renamed l')"
      using visitChildren_distinct[OF descend(2)] less.hyps sub weight_child[of _ node]
      by blast
    have "[] \<notin> set (renamed l')"
      using visitChildren_heads[OF descend(2), of "[]"] by (auto simp: set_renamed)
    with d scopeVisitor_single[OF descend(1)] descend(4) show ?thesis
      by (auto simp: renamed_append)
  qed
qed

lemma outerStep_distinct:
  assumes "outerStep enc registry names node = (node1, tr, e1)"
  shows "distinct (renamed tr)"
proof (cases "shouldProcessScope registry node")
  case False
  with assms show ?thesis by (simp add: outerStep_def)
next
  case True
  with assms have "createScopeVisitor enc registry names node = (node1, tr, e1)"
    by (simp add: outerStep_def)
  then show ?thesis
  proof (cases rule: createScopeVisitor_cases)
    case idle
    then show ?thesis by simp
  next
    case (walk n as cs scopeRule rf cs')
    from visitChildren_distinct[OF walk(4)] innerVisit_distinct show ?thesis by blast
  qed
qed

text \<open>
  When no rewrite target has the name of an active scope, an element that has such a
  name after the step at a node had it before.
\<close>

lemma outerStep_keeps_scope:
  assumes fresh: "\<forall>t \<in> renameTargets registry. name (component t) \<notin> activeScopeNames registry"
    and st: "outerStep enc registry names node = (node1, tr, e1)"
    and at: "nodeAt node1 q = Some m1"
    and b: "boundary (activeScopeNames registry) m1"
  shows "\<exists>m. nodeAt node q = Some m \<and> boundary (activeScopeNames registry) m"
proof -
  from outerStep_origin[OF st at] obtain m where m: "nodeAt node q = Some m"
    and alt: "elementName m1 = elementName m \<or>
      (\<exists>t. (q, Renamed t) \<in> set tr \<and> elementName m1 = Some (name (component t)))"
    by blast
  from alt show ?thesis
  proof
    assume "elementName m1 = elementName m"
    with b m show ?thesis by (auto simp: boundary_def)
  next
    assume "\<exists>t. (q, Renamed t) \<in> set tr \<and> elementName m1 = Some (name (component t))"
    then obtain t where "(q, Renamed t) \<in> set tr" "elementName m1 = Some (name (component t))"
      by blast
    with outerStep_target[OF st] fresh b show ?thesis by (auto simp: boundary_def)
  qed
qed

lemma outerVisit_under_scope:
  assumes fresh: "\<forall>t \<in> renameTargets registry. name (component t) \<notin> activeScopeNames registry"
  shows "outerVisit enc registry names node = (node', l, e) \<Longrightarrow> (p, Renamed t) \<in> set l \<Longrightarrow>
    \<exists>r m. strict_prefix r p \<and> nodeAt node r = Some m \<and> boundary (activeScopeNames registry) m"
proof (induction p arbitrary: node node' l e)
  case Nil
  from Nil.prems(1) obtain node1 tr e1 where
    "\<forall>x. ([], x) \<in> set l \<longleftrightarrow> x = Tested (shouldProcessScope registry node)"
    by (rule outerVisit_level)
  with Nil.prems(2) show ?case by auto
next
  case (Cons i p)
  from Cons.prems(1) obtain node1 tr e1 where
    st: "outerStep enc registry names node = (node1, tr, e1)"
    and len: "length (children node') = length (children node1)"
    and heads: "\<forall>i p x. (i # p, x) \<in> set l \<longrightarrow> i < length (children node')"
    and lev: "\<forall>i < length (children node').
       (\<exists>li ei. outerVisit enc registry names (children node1 ! i) = (children node' ! i, li, ei) \<and>
          (\<forall>p x. (i # p, x) \<in> set l \<longleftrightarrow> (i # p, x) \<in> set tr \<or> (p, x) \<in> set li)) \<or>
       (children node' ! i = children node1 ! i \<and>
          (\<forall>p x. (i # p, x) \<in> set l \<longleftrightarrow> (i # p, x) \<in> set tr))"
    by (rule outerVisit_level)
  have intr: ?case if "(i # p, Renamed t) \<in> set tr"
  proof -
    from outerStep_renamed[OF st that] obtain sn where
      "elementName node = Some sn" "sn \<in> activeScopeNames registry"
      by blast
    then have "strict_prefix [] (i # p) \<and> nodeAt node [] = Some node \<and>
        boundary (activeScopeNames registry) node"
      by (simp add: boundary_def)
    then show ?thesis by blast
  qed
  from heads Cons.prems(2) have i: "i < length (children node')" by blast
  with len have i1: "i < length (children node1)" by simp
  from lev i have "(\<exists>li ei. outerVisit enc registry names (children node1 ! i) = (children node' ! i, li, ei) \<and>
          (\<forall>p x. (i # p, x) \<in> set l \<longleftrightarrow> (i # p, x) \<in> set tr \<or> (p, x) \<in> set li)) \<or>
       (children node' ! i = children node1 ! i \<and>
          (\<forall>p x. (i # p, x) \<in> set l \<longleftrightarrow> (i # p, x) \<in> set tr))"
    by blast
  then show ?case
  proof (elim disjE exE conjE)
    fix li ei
    assume ov: "outerVisit enc registry names (children node1 ! i) = (children node' ! i, li, ei)"
      and ent: "\<forall>p x. (i # p, x) \<in> set l \<longleftrightarrow> (i # p, x) \<in> set tr \<or> (p, x) \<in> set li"
    from ent Cons.prems(2) have "(i # p, Renamed t) \<in> set tr \<or> (p, Renamed t) \<in> set li"
      by blast
    then show ?thesis
    proof
      assume "(i # p, Renamed t) \<in> set tr"
      then show ?thesis by (rule intr)
    next
      assume "(p, Renamed t) \<in> set li"
      from Cons.IH[OF ov this] obtain r m1 where r: "strict_prefix r p"
        and m1: "nodeAt (children node1 ! i) r = Some m1"
        and b: "boundary (activeScopeNames registry) m1"
        by blast
      from m1 i1 have "nodeAt node1 (i # r) = Some m1" by simp
      from outerStep_keeps_scope[OF fresh st this b] obtain m where
        "nodeAt node (i # r) = Some m" "boundary (activeScopeNames registry) m"
        by blast
      moreover from r have "strict_prefix (i # r) (i # p)" by simp
      ultimately show ?thesis by blast
    qed
  next
    assume "\<forall>p x. (i # p, x) \<in> set l \<longleftrightarrow> (i # p, x) \<in> set tr"
    with Cons.prems(2) have "(i # p, Renamed t) \<in> set tr" by blast
    then show ?thesis by (rule intr)
  qed
qed

lemma outerVisit_distinct:
  assumes fresh: "\<forall>t \<in> renameTargets registry. name (component t) \<notin> activeScopeNames registry"
    and sub: "activeScopeNames registry \<subseteq> names"
  shows "outerVisit enc registry names node = (node', l, e) \<Longrightarrow> distinct (renamed l)"
proof (induction "weight node" arbitrary: node node' l e rule: less_induct)
  case less
  from less.prems show ?case
  proof (cases rule: outerVisit_cases)
    case (stop tr err)
    with outerStep_distinct[OF stop(1)] show ?thesis by simp
  next
    case (descend node1 tr cs' l')
    have d: "distinct (renamed l')"
      using visitChildren_distinct[OF descend(2)] less.hyps outerStep_children[OF descend(1)]
      by blast
    have "p \<notin> set (renamed l')" if "p \<in> set (renamed tr)" for p
    proof
      assume "p \<in> set (renamed l')"
      then obtain t2 where in2: "(p, Renamed t2) \<in> set l'" by (auto simp: set_renamed)
      from visitChildren_heads[OF descend(2) in2] obtain i p' where
        p: "p = i # p'" and i: "i < length (children node1)"
        by auto
      from visitChildren_nth[OF descend(2) i] in2 p obtain li ei where
        ov: "outerVisit enc registry names (children node1 ! i) = (cs' ! i, li, ei)"
        and "(p', Renamed t2) \<in> set li"
        by auto
      from outerVisit_under_scope[OF fresh ov this(2)] obtain r m1 where
        r: "strict_prefix r p'" and m1: "nodeAt (children node1 ! i) r = Some m1"
        and b: "boundary (activeScopeNames registry) m1"
        by blast
      from m1 i have "nodeAt node1 (i # r) = Some m1" by simp
      from outerStep_keeps_scope[OF fresh descend(1) this b] obtain m where
        m: "nodeAt node (i # r) = Some m" and bm: "boundary (activeScopeNames registry) m"
        by blast
      from bm sub have bn: "boundary names m" by (auto simp: boundary_def split: option.splits)
      from that obtain t1 where "(p, Renamed t1) \<in> set tr" by (auto simp: set_renamed)
      from outerStep_renamed[OF descend(1) this]
      have "\<forall>q. strict_prefix q p \<and> q \<noteq> [] \<longrightarrow>
              (\<exists>m. nodeAt node q = Some m \<and> \<not> boundary names m)"
        by blast
      moreover from r p have "strict_prefix (i # r) p" by simp
      ultimately show False using m bn by auto
    qed
    with d outerStep_distinct[OF descend(1)] descend(4) show ?thesis
      by (auto simp: renamed_append)
  qed
qed

subsection \<open>Every node is tested\<close>

lemma pathsFrom_nth:
  "i < length cs \<Longrightarrow> q \<in> set (paths (cs ! i)) \<Longrightarrow> (offset + i) # q \<in> set (pathsFrom offset cs)"
proof (induction cs arbitrary: offset i)
  case Nil
  then show ?case by simp
next
  case (Cons c cs)
  show ?case
  proof (cases i)
    case 0
    with Cons.prems show ?thesis by simp
  next
    case (Suc j)
    with Cons.prems have "(Suc offset + j) # q \<in> set (pathsFrom (Suc offset) cs)"
      by (intro Cons.IH) simp_all
    with Suc show ?thesis by simp
  qed
qed

lemma paths_complete: "nodeAt node p = Some m \<Longrightarrow> p \<in> set (paths node)"
proof (induction p arbitrary: node)
  case Nil
  then show ?case by (simp add: paths_eq)
next
  case (Cons i p)
  then have i: "i < length (children node)" and "nodeAt (children node ! i) p = Some m"
    by (auto split: if_splits)
  from Cons.IH[OF this(2)] pathsFrom_nth[OF i, of p 0] show ?case
    by (simp add: paths_eq[of node])
qed

lemma set_tested: "p \<in> set (tested l) \<longleftrightarrow> (\<exists>b. (p, Tested b) \<in> set l)"
  by (induction l rule: tested.induct) auto

lemma shouldProcessScope_active:
  "shouldProcessScope registry node \<longleftrightarrow>
   (\<exists>n. elementName node = Some n \<and> n \<in> activeScopeNames registry)"
  by (cases node) (auto simp: shouldProcessScope_def split: option.splits)

subsection \<open>The rule that governs a renamed element\<close>

lemma outerStep_boundary_back:
  assumes fresh: "\<forall>t \<in> renameTargets registry. name (component t) \<notin> names"
    and st: "outerStep enc registry names node = (node1, tr, e1)"
    and at: "nodeAt node1 q = Some m1" and nm: "elementName m1 = Some s" and s: "s \<in> names"
  shows "\<exists>m. nodeAt node q = Some m \<and> elementName m = Some s"
proof -
  from outerStep_origin[OF st at] obtain m where m: "nodeAt node q = Some m"
    and alt: "elementName m1 = elementName m \<or>
      (\<exists>t. (q, Renamed t) \<in> set tr \<and> elementName m1 = Some (name (component t)))"
    by blast
  from alt show ?thesis
  proof
    assume "elementName m1 = elementName m"
    with m nm show ?thesis by simp
  next
    assume "\<exists>t. (q, Renamed t) \<in> set tr \<and> elementName m1 = Some (name (component t))"
    then obtain t where "(q, Renamed t) \<in> set tr" "elementName m1 = Some (name (component t))"
      by blast
    with outerStep_target[OF st] fresh nm s show ?thesis by auto
  qed
qed

lemma outerStep_open_back:
  assumes st: "outerStep enc registry names node = (node1, tr, e1)"
    and at: "nodeAt node1 q = Some m1" and nb: "\<not> boundary names m1"
  shows "\<exists>m. nodeAt node q = Some m \<and> \<not> boundary names m"
proof -
  from outerStep_origin[OF st at] obtain m where m: "nodeAt node q = Some m"
    and alt: "elementName m1 = elementName m \<or>
      (\<exists>t. (q, Renamed t) \<in> set tr \<and> elementName m1 = Some (name (component t)))"
    by blast
  from alt show ?thesis
  proof
    assume "elementName m1 = elementName m"
    with m nb show ?thesis by (simp add: boundary_def)
  next
    assume "\<exists>t. (q, Renamed t) \<in> set tr \<and> elementName m1 = Some (name (component t))"
    then obtain t where "(q, Renamed t) \<in> set tr" by blast
    from outerStep_renamed[OF st this] m show ?thesis by (auto simp: boundary_def)
  qed
qed

lemma outerVisit_governed:
  assumes fresh: "\<forall>t \<in> renameTargets registry. name (component t) \<notin> scopeComponentNames registry"
  shows "outerVisit enc registry (scopeComponentNames registry) node = (node', l, e) \<Longrightarrow>
    (p, Renamed t) \<in> set l \<Longrightarrow> governed registry node p t"
proof (induction p arbitrary: node node' l e)
  case Nil
  from Nil.prems(1) obtain node1 tr e1 where
    "\<forall>x. ([], x) \<in> set l \<longleftrightarrow> x = Tested (shouldProcessScope registry node)"
    by (rule outerVisit_level)
  with Nil.prems(2) show ?case by auto
next
  case (Cons i p)
  let ?names = "scopeComponentNames registry"
  from Cons.prems(1) obtain node1 tr e1 where
    st: "outerStep enc registry ?names node = (node1, tr, e1)"
    and len: "length (children node') = length (children node1)"
    and heads: "\<forall>i p x. (i # p, x) \<in> set l \<longrightarrow> i < length (children node')"
    and lev: "\<forall>i < length (children node').
       (\<exists>li ei. outerVisit enc registry ?names (children node1 ! i) = (children node' ! i, li, ei) \<and>
          (\<forall>p x. (i # p, x) \<in> set l \<longleftrightarrow> (i # p, x) \<in> set tr \<or> (p, x) \<in> set li)) \<or>
       (children node' ! i = children node1 ! i \<and>
          (\<forall>p x. (i # p, x) \<in> set l \<longleftrightarrow> (i # p, x) \<in> set tr))"
    by (rule outerVisit_level)
  have intr: ?case if "(i # p, Renamed t) \<in> set tr"
  proof -
    from outerStep_renamed[OF st that] obtain sn scopeRule rf n as cs where
      f: "elementName node = Some sn" "map_of registry sn = Some scopeRule"
         "renameFlow scopeRule = Declared rf"
         "nodeAt node (i # p) = Some (Flow (Some n) as cs)" "n \<notin> ?names"
         "map_of rf n = Some t"
         "\<forall>q. strict_prefix q (i # p) \<and> q \<noteq> [] \<longrightarrow>
            (\<exists>m. nodeAt node q = Some m \<and> \<not> boundary ?names m)"
      by blast
    have "strict_prefix [] (i # p)" by simp
    moreover have "\<exists>m. nodeAt node [] = Some m \<and> elementName m = Some sn"
      using f(1) by simp
    moreover have "\<forall>q. strict_prefix [] q \<and> strict_prefix q (i # p) \<longrightarrow>
        (\<exists>m. nodeAt node q = Some m \<and> \<not> boundary ?names m)"
      using f(7) by auto
    ultimately show ?thesis
      unfolding governed_def using f(2-6) by blast
  qed
  from heads Cons.prems(2) have i: "i < length (children node')" by blast
  with len have i1: "i < length (children node1)" by simp
  from lev i have "(\<exists>li ei. outerVisit enc registry ?names (children node1 ! i) = (children node' ! i, li, ei) \<and>
          (\<forall>p x. (i # p, x) \<in> set l \<longleftrightarrow> (i # p, x) \<in> set tr \<or> (p, x) \<in> set li)) \<or>
       (children node' ! i = children node1 ! i \<and>
          (\<forall>p x. (i # p, x) \<in> set l \<longleftrightarrow> (i # p, x) \<in> set tr))"
    by blast
  then show ?case
  proof (elim disjE exE conjE)
    fix li ei
    assume ov: "outerVisit enc registry ?names (children node1 ! i) = (children node' ! i, li, ei)"
      and ent: "\<forall>p x. (i # p, x) \<in> set l \<longleftrightarrow> (i # p, x) \<in> set tr \<or> (p, x) \<in> set li"
    from ent Cons.prems(2) have "(i # p, Renamed t) \<in> set tr \<or> (p, Renamed t) \<in> set li"
      by blast
    then show ?thesis
    proof
      assume "(i # p, Renamed t) \<in> set tr"
      then show ?thesis by (rule intr)
    next
      assume "(p, Renamed t) \<in> set li"
      from Cons.IH[OF ov this] obtain r s rule rf n as cs m1 where
        g: "strict_prefix r p" "nodeAt (children node1 ! i) r = Some m1" "elementName m1 = Some s"
           "map_of registry s = Some rule" "renameFlow rule = Declared rf"
           "\<forall>q. strict_prefix r q \<and> strict_prefix q p \<longrightarrow>
              (\<exists>m. nodeAt (children node1 ! i) q = Some m \<and> \<not> boundary ?names m)"
           "nodeAt (children node1 ! i) p = Some (Flow (Some n) as cs)" "n \<notin> ?names"
           "map_of rf n = Some t"
        unfolding governed_def by blast
      from g(4) have s: "s \<in> ?names" by (force simp: scopeComponentNames_def dest: map_of_SomeD)
      from g(2) i1 have "nodeAt node1 (i # r) = Some m1" by simp
      from outerStep_boundary_back[OF fresh st this g(3) s] obtain m where
        m: "nodeAt node (i # r) = Some m" "elementName m = Some s"
        by blast
      have between: "\<exists>m. nodeAt node q = Some m \<and> \<not> boundary ?names m"
        if "strict_prefix (i # r) q" "strict_prefix q (i # p)" for q
      proof -
        from that obtain q' where q: "q = i # q'" "strict_prefix r q'" "strict_prefix q' p"
          by (cases q) auto
        with g(6) obtain mq where "nodeAt (children node1 ! i) q' = Some mq"
          "\<not> boundary ?names mq"
          by blast
        with i1 have "nodeAt node1 (i # q') = Some mq" by simp
        from outerStep_open_back[OF st this \<open>\<not> boundary ?names mq\<close>] q(1) show ?thesis
          by simp
      qed
      have notr: "(i # p, x) \<notin> set tr" for x
      proof
        assume "(i # p, x) \<in> set tr"
        from outerStep_renamed[OF st this]
        have "\<forall>q. strict_prefix q (i # p) \<and> q \<noteq> [] \<longrightarrow>
            (\<exists>m. nodeAt node q = Some m \<and> \<not> boundary ?names m)"
          by blast
        moreover from g(1) have "strict_prefix (i # r) (i # p) \<and> i # r \<noteq> []" by simp
        ultimately have "\<exists>m. nodeAt node (i # r) = Some m \<and> \<not> boundary ?names m"
          by blast
        with m s show False by (simp add: boundary_def)
      qed
      from g(7) i1 have at1: "nodeAt node1 (i # p) = Some (Flow (Some n) as cs)" by simp
      from outerStep_origin[OF st at1] notr obtain mp where
        "nodeAt node (i # p) = Some mp" "elementName mp = Some n"
        by auto
      then obtain as' cs' where atp: "nodeAt node (i # p) = Some (Flow (Some n) as' cs')"
        by (cases mp) auto
      from g(1) have "strict_prefix (i # r) (i # p)" by simp
      with m g(4,5,8,9) between atp show ?thesis
        unfolding governed_def by blast
    qed
  next
    assume "\<forall>p x. (i # p, x) \<in> set l \<longleftrightarrow> (i # p, x) \<in> set tr"
    with Cons.prems(2) have "(i # p, Renamed t) \<in> set tr" by blast
    then show ?thesis by (rule intr)
  qed
qed

subsection \<open>Every governed element is renamed\<close>

lemma scopeVisitor_keeps:
  assumes "\<forall>k t. map_of rf k = Some t \<longrightarrow> \<not> clearsChildren t"
    and "scopeVisitor enc names rf node = (element, a, tr, e)"
  shows "children element = children node"
  using assms(2)
proof (cases rule: scopeVisitor_cases)
  case (rename n as cs target)
  from rename(4)[unfolded rename(1)] show ?thesis
  proof (cases rule: applyFlowRename_cases)
    case (threw err)
    with rename(1) show ?thesis by simp
  next
    case (built as')
    with assms(1) rename(1,3) show ?thesis by simp
  qed
qed simp_all

lemma innerVisit_arity:
  assumes nc: "\<forall>k t. map_of rf k = Some t \<longrightarrow> \<not> clearsChildren t"
    and iv: "innerVisit enc names rf node = (node', l, e)"
  shows "length (children node') = length (children node)"
  using iv
proof (cases rule: innerVisit_cases)
  case (stop a)
  from scopeVisitor_keeps[OF nc stop(1)] show ?thesis by simp
next
  case (descend element tr cs' l')
  from scopeVisitor_keeps[OF nc descend(1)] visitChildren_length[OF descend(2)] descend(3)
  show ?thesis by (simp add: children_setChildren)
qed

lemma innerVisit_keeps:
  assumes nc: "\<forall>k t. map_of rf k = Some t \<longrightarrow> \<not> clearsChildren t"
  shows "innerVisit enc names rf node = (node', l, e) \<Longrightarrow> nodeAt node q = Some m \<Longrightarrow>
    \<exists>m'. nodeAt node' q = Some m'"
proof (induction q arbitrary: node node' l e)
  case Nil
  then show ?case by simp
next
  case (Cons i q)
  from Cons.prems(2) have i: "i < length (children node)"
    and at: "nodeAt (children node ! i) q = Some m"
    by (auto split: if_splits)
  from innerVisit_arity[OF nc Cons.prems(1)] i have i': "i < length (children node')" by simp
  from Cons.prems(1) i' show ?case
  proof (cases rule: innerVisit_child)
    case (visited li ei)
    from Cons.IH[OF visited(2) at] i' show ?thesis by simp
  next
    case unvisited
    with at i' show ?thesis by simp
  qed
qed

lemma createScopeVisitor_keeps:
  assumes nc: "\<forall>t \<in> renameTargets registry. \<not> clearsChildren t"
    and c: "createScopeVisitor enc registry names node = (node', l, e)"
    and at: "nodeAt node q = Some m"
  shows "\<exists>m'. nodeAt node' q = Some m'"
proof (cases q)
  case Nil
  then show ?thesis by simp
next
  case (Cons i q')
  with at have i: "i < length (children node)"
    and at': "nodeAt (children node ! i) q' = Some m"
    by (auto split: if_splits)
  from createScopeVisitor_root[OF c] i have i': "i < length (children node')" by simp
  from c i' show ?thesis
  proof (cases rule: createScopeVisitor_child)
    case (visited n scopeRule rf li ei)
    have "\<forall>k t. map_of rf k = Some t \<longrightarrow> \<not> clearsChildren t"
    proof (intro allI impI)
      fix k t
      assume "map_of rf k = Some t"
      with visited(2,3) have "t \<in> renameTargets registry"
        by (auto simp: renameTargets_def dest!: map_of_SomeD)
      with nc show "\<not> clearsChildren t" by blast
    qed
    from innerVisit_keeps[OF this visited(5) at'] i' Cons show ?thesis by simp
  next
    case unvisited
    with at' i' Cons show ?thesis by simp
  qed
qed

lemma outerStep_keeps:
  assumes "\<forall>t \<in> renameTargets registry. \<not> clearsChildren t"
    and "outerStep enc registry names node = (node1, tr, e1)"
    and "nodeAt node q = Some m"
  shows "\<exists>m1. nodeAt node1 q = Some m1"
  using assms createScopeVisitor_keeps[of registry enc names node node1 tr e1 q m]
  by (auto simp: outerStep_def split: if_splits)

lemma innerVisit_complete:
  assumes nc: "\<forall>k t. map_of rf k = Some t \<longrightarrow> \<not> clearsChildren t"
  shows "innerVisit enc names rf node = (node', l, None) \<Longrightarrow>
    nodeAt node p = Some (Flow (Some n) as cs) \<Longrightarrow> n \<notin> names \<Longrightarrow> map_of rf n = Some t \<Longrightarrow>
    (\<forall>q. strict_prefix q p \<longrightarrow> (\<exists>m. nodeAt node q = Some m \<and> \<not> boundary names m)) \<Longrightarrow>
    (p, Renamed t) \<in> set l"
proof (induction p arbitrary: node node' l)
  case Nil
  then have node: "node = Flow (Some n) as cs" by simp
  with Nil.prems(3) have nb: "\<not> boundary names node" by (simp add: boundary_def)
  have "\<exists>element a tr. scopeVisitor enc names rf node = (element, a, tr, None) \<and>
      set tr \<subseteq> set l"
    using Nil.prems(1) by (cases rule: innerVisit_cases) auto
  then obtain element a tr where
    sv: "scopeVisitor enc names rf node = (element, a, tr, None)" and sub: "set tr \<subseteq> set l"
    by blast
  from sv show ?case
  proof (cases rule: scopeVisitor_cases)
    case skip
    with nb show ?thesis by simp
  next
    case keep
    with node Nil.prems(4) show ?thesis by simp
  next
    case (inherited n' as' cs')
    then show ?thesis by simp
  next
    case (rename n' as' cs' target)
    with node Nil.prems(4) have "target = t" by simp
    with rename(6) sub show ?thesis by auto
  qed
next
  case (Cons i p)
  from Cons.prems(2) have i: "i < length (children node)"
    and at: "nodeAt (children node ! i) p = Some (Flow (Some n) as cs)"
    by (auto split: if_splits)
  have "strict_prefix [] (i # p)" by simp
  with Cons.prems(5) have "\<exists>m. nodeAt node [] = Some m \<and> \<not> boundary names m" by blast
  then have nb: "\<not> boundary names node" by simp
  have pre: "\<forall>q. strict_prefix q p \<longrightarrow>
      (\<exists>m. nodeAt (children node ! i) q = Some m \<and> \<not> boundary names m)"
  proof (intro allI impI)
    fix q
    assume "strict_prefix q p"
    then have "strict_prefix (i # q) (i # p)" by simp
    with Cons.prems(5) obtain m where "nodeAt node (i # q) = Some m" "\<not> boundary names m"
      by blast
    with i show "\<exists>m. nodeAt (children node ! i) q = Some m \<and> \<not> boundary names m" by simp
  qed
  from Cons.prems(1) show ?case
  proof (cases rule: innerVisit_cases)
    case (stop a)
    then have "a = SKIP" by simp
    with stop(1) nb show ?thesis by (auto elim: scopeVisitor_cases)
  next
    case (descend element tr cs' l')
    from scopeVisitor_keeps[OF nc descend(1)] have ch: "children element = children node" .
    from visitChildren_nth[OF descend(2), of i] i ch
    obtain li where iv: "innerVisit enc names rf (children node ! i) = (cs' ! i, li, None)"
      and ent: "\<forall>p x. (i # p, x) \<in> set l' \<longleftrightarrow> (p, x) \<in> set li"
      by auto
    from Cons.IH[OF iv at Cons.prems(3,4) pre] ent descend(4) show ?thesis by simp
  qed
qed

lemma createScopeVisitor_complete:
  assumes nc: "\<forall>t \<in> renameTargets registry. \<not> clearsChildren t"
    and c: "createScopeVisitor enc registry names node = (node', l, None)"
    and nm: "elementName node = Some s" "map_of registry s = Some rule"
      "renameFlow rule = Declared rf"
    and at: "nodeAt node (i # p) = Some (Flow (Some n) as cs)" "n \<notin> names"
      "map_of rf n = Some t"
    and pre: "\<forall>q. strict_prefix q (i # p) \<and> q \<noteq> [] \<longrightarrow>
      (\<exists>m. nodeAt node q = Some m \<and> \<not> boundary names m)"
  shows "(i # p, Renamed t) \<in> set l"
proof -
  from nm(1) obtain as0 cs0 where node: "node = Flow (Some s) as0 cs0" by (cases node) auto
  with c nm(2,3) obtain cs' where
    v: "visitChildren (innerVisit enc names rf) 0 cs0 = (cs', l, None)"
    by (auto simp: createScopeVisitor_def split: prod.splits)
  from at(1) node have i: "i < length cs0"
    and at': "nodeAt (cs0 ! i) p = Some (Flow (Some n) as cs)"
    by (auto split: if_splits)
  have rf: "\<forall>k t. map_of rf k = Some t \<longrightarrow> \<not> clearsChildren t"
  proof (intro allI impI)
    fix k t
    assume "map_of rf k = Some t"
    with nm(2,3) have "t \<in> renameTargets registry"
      by (auto simp: renameTargets_def dest!: map_of_SomeD)
    with nc show "\<not> clearsChildren t" by blast
  qed
  have pre': "\<forall>q. strict_prefix q p \<longrightarrow>
      (\<exists>m. nodeAt (cs0 ! i) q = Some m \<and> \<not> boundary names m)"
  proof (intro allI impI)
    fix q
    assume "strict_prefix q p"
    then have "strict_prefix (i # q) (i # p) \<and> i # q \<noteq> []" by simp
    with pre obtain m where "nodeAt node (i # q) = Some m" "\<not> boundary names m" by blast
    with i node show "\<exists>m. nodeAt (cs0 ! i) q = Some m \<and> \<not> boundary names m" by simp
  qed
  from visitChildren_nth[OF v i]
  obtain li where iv: "innerVisit enc names rf (cs0 ! i) = (cs' ! i, li, None)"
    and ent: "\<forall>p x. (i # p, x) \<in> set l \<longleftrightarrow> (p, x) \<in> set li"
    by auto
  from innerVisit_complete[OF rf iv at' at(2,3) pre'] ent show ?thesis by simp
qed

lemma outerVisit_complete:
  assumes fresh: "\<forall>t \<in> renameTargets registry. name (component t) \<notin> scopeComponentNames registry"
    and nc: "\<forall>t \<in> renameTargets registry. \<not> clearsChildren t"
  shows "outerVisit enc registry (scopeComponentNames registry) node = (node', l, None) \<Longrightarrow>
    governed registry node p t \<Longrightarrow> (p, Renamed t) \<in> set l"
proof (induction p arbitrary: node node' l)
  case Nil
  then show ?case by (simp add: governed_def)
next
  case (Cons i p)
  let ?names = "scopeComponentNames registry"
  from Cons.prems(2) obtain r s rule rf n as cs m where
    g: "strict_prefix r (i # p)" "nodeAt node r = Some m" "elementName m = Some s"
       "map_of registry s = Some rule" "renameFlow rule = Declared rf"
       "\<forall>q. strict_prefix r q \<and> strict_prefix q (i # p) \<longrightarrow>
          (\<exists>m. nodeAt node q = Some m \<and> \<not> boundary ?names m)"
       "nodeAt node (i # p) = Some (Flow (Some n) as cs)" "n \<notin> ?names"
       "map_of rf n = Some t"
    unfolding governed_def by blast
  from g(4) have s: "s \<in> ?names" by (force simp: scopeComponentNames_def dest: map_of_SomeD)
  from Cons.prems(1) show ?case
  proof (cases rule: outerVisit_cases)
    case (stop tr err)
    then show ?thesis by simp
  next
    case (descend node1 tr cs' l')
    show ?thesis
    proof (cases r)
      case Nil
      with g(2,3) have nm: "elementName node = Some s" by simp
      from g(4,5) have "s \<in> activeScopeNames registry"
        by (force simp: activeScopeNames_def hasOwn_renameFlow_def dest: map_of_SomeD)
      with nm have "shouldProcessScope registry node"
        by (cases node) (auto simp: shouldProcessScope_def)
      with descend(1) have c: "createScopeVisitor enc registry ?names node = (node1, tr, None)"
        by (simp add: outerStep_def)
      have "\<forall>q. strict_prefix q (i # p) \<and> q \<noteq> [] \<longrightarrow>
          (\<exists>m. nodeAt node q = Some m \<and> \<not> boundary ?names m)"
      proof (intro allI impI)
        fix q
        assume q: "strict_prefix q (i # p) \<and> q \<noteq> []"
        then have "strict_prefix [] q" by (cases q) auto
        with q g(6) Nil show "\<exists>m. nodeAt node q = Some m \<and> \<not> boundary ?names m" by blast
      qed
      from createScopeVisitor_complete[OF nc c nm g(4,5,7,8,9) this] descend(4)
      show ?thesis by simp
    next
      case (Cons i' r')
      with g(1) have r: "r = i # r'" and rp: "strict_prefix r' p" by auto
      have notr: "(i # p, x) \<notin> set tr" for x
      proof
        assume "(i # p, x) \<in> set tr"
        from outerStep_renamed[OF descend(1) this]
        have "\<forall>q. strict_prefix q (i # p) \<and> q \<noteq> [] \<longrightarrow>
            (\<exists>m. nodeAt node q = Some m \<and> \<not> boundary ?names m)"
          by blast
        moreover from rp have "strict_prefix (i # r') (i # p) \<and> i # r' \<noteq> []" by simp
        ultimately have "\<exists>m. nodeAt node (i # r') = Some m \<and> \<not> boundary ?names m"
          by blast
        with g(2,3) r s show False by (simp add: boundary_def)
      qed
      have same: "\<exists>m1. nodeAt node1 q = Some m1 \<and>
            (elementName m1 = elementName mq \<or> \<not> boundary ?names mq \<and> \<not> boundary ?names m1)"
        if "nodeAt node q = Some mq" for q mq
      proof -
        from outerStep_keeps[OF nc descend(1) that] obtain m1 where
          m1: "nodeAt node1 q = Some m1"
          by blast
        from outerStep_origin[OF descend(1) m1] that
        have "elementName m1 = elementName mq \<or>
            (\<exists>t. (q, Renamed t) \<in> set tr \<and> elementName m1 = Some (name (component t)))"
          by auto
        then show ?thesis
        proof
          assume "elementName m1 = elementName mq"
          with m1 show ?thesis by blast
        next
          assume "\<exists>t. (q, Renamed t) \<in> set tr \<and> elementName m1 = Some (name (component t))"
          then obtain t' where t': "(q, Renamed t') \<in> set tr"
            "elementName m1 = Some (name (component t'))"
            by blast
          from outerStep_target[OF descend(1) t'(1)] fresh t'(2)
          have "\<not> boundary ?names m1" by (auto simp: boundary_def)
          moreover from outerStep_renamed[OF descend(1) t'(1)] that
          have "\<not> boundary ?names mq" by (auto simp: boundary_def)
          ultimately show ?thesis using m1 by blast
        qed
      qed
      from same[OF g(2)] g(3) s r obtain m1 where
        m1: "nodeAt node1 (i # r') = Some m1" "elementName m1 = Some s"
        by (auto simp: boundary_def)
      then have i1: "i < length (children node1)" by (auto split: if_splits)
      from same[OF g(7)] obtain mp where mp: "nodeAt node1 (i # p) = Some mp"
        by auto
      from outerStep_origin[OF descend(1) mp(1)] notr g(7)
      have "elementName mp = Some n" by auto
      then obtain as1 cs1 where mp1: "mp = Flow (Some n) as1 cs1" by (cases mp) auto
      have between: "\<exists>m. nodeAt (children node1 ! i) q = Some m \<and> \<not> boundary ?names m"
        if "strict_prefix r' q" "strict_prefix q p" for q
      proof -
        from that r have "strict_prefix r (i # q) \<and> strict_prefix (i # q) (i # p)" by simp
        with g(6) obtain mq where mq: "nodeAt node (i # q) = Some mq" "\<not> boundary ?names mq"
          by blast
        from same[OF mq(1)] mq(2) obtain mq1 where "nodeAt node1 (i # q) = Some mq1"
          "\<not> boundary ?names mq1"
          by (auto simp: boundary_def)
        with i1 show ?thesis by simp
      qed
      have gov: "governed registry (children node1 ! i) p t"
        unfolding governed_def
        using rp m1 i1 g(4,5,8,9) mp(1) mp1 between
        by (intro exI[of _ r'] exI[of _ s] exI[of _ rule] exI[of _ rf] exI[of _ n]
              exI[of _ as1] exI[of _ cs1]) auto
      from visitChildren_nth[OF descend(2) i1]
      obtain li where
        ov: "outerVisit enc registry ?names (children node1 ! i) = (cs' ! i, li, None)"
        and ent: "\<forall>p x. (i # p, x) \<in> set l' \<longleftrightarrow> (p, x) \<in> set li"
        by auto
      from Cons.IH[OF ov gov] ent descend(4) show ?thesis by simp
    qed
  qed
qed

section \<open>Lemmas on the name expansion\<close>

lemma set_Set_add: "set (Set_add s x) = insert x (set s)"
  by (auto simp: Set_add_def)

lemma distinct_Set_add: "distinct s \<Longrightarrow> distinct (Set_add s x)"
  by (auto simp: Set_add_def)

lemma set_foldl_Set_add: "set (foldl (\<lambda>acc x. Set_add acc (f x)) s xs) = set s \<union> f ` set xs"
  by (induction xs arbitrary: s) (auto simp: set_Set_add)

lemma set_Set_new: "set (Set_new xs) = set xs"
  using set_foldl_Set_add[of "\<lambda>x. x" "[]" xs] by (simp add: Set_new_def)

lemma set_addRenameFlowTargets:
  "set (addRenameFlowTargets expanded rf) =
   set expanded \<union> (case rf of Declared m \<Rightarrow> (\<lambda>target. name (component target)) ` snd ` set m | _ \<Rightarrow> {})"
  by (auto simp: addRenameFlowTargets_def set_foldl_Set_add split: own_property.splits)

lemma set_expand_loop:
  "set (foldl (\<lambda>expanded componentName.
              case map_of defs componentName of
                None \<Rightarrow> expanded
              | Some componentDefinition \<Rightarrow>
                  (case mdxTransform componentDefinition of
                     None \<Rightarrow> expanded
                   | Some rule \<Rightarrow> addRenameFlowTargets expanded (renameFlow rule)))
           s xs) = set s \<union> (\<Union>n \<in> set xs. renameTargetNames defs n)"
proof (induction xs arbitrary: s)
  case Nil
  then show ?case by simp
next
  case (Cons x xs)
  show ?case
    by (simp add: Cons.IH)
       (auto simp: renameTargetNames_def set_addRenameFlowTargets
             split: option.splits own_property.splits)
qed

section \<open>Scope exclusivity and nested boundaries\<close>

text \<open>
  C1 as stated fails: a rename can turn an element into a scope root. Here \<^verbatim>\<open>T\<close> is a
  source key under \<^verbatim>\<open>S\<close> only and the element \<^verbatim>\<open>T\<close> has no ancestor named \<^verbatim>\<open>S\<close>,
  but the inner walk of \<^verbatim>\<open>Outer\<close> renames its parent \<^verbatim>\<open>p\<close> to \<^verbatim>\<open>S\<close>; the outer
  walk then finds that element as a scope root and its inner walk renames \<^verbatim>\<open>T\<close>.
\<close>

theorem scope_exclusivity_counterexample:
  "scopesRenaming
     [(''Outer'', \<lparr>renameFlow = Declared [(''p'', renameTo ''S'')]\<rparr>),
      (''S'', \<lparr>renameFlow = Declared [(''T'', renameTo ''X'')]\<rparr>)] ''T'' = {''S''} \<and>
   nodeAt (Flow (Some ''Outer'') [] [Flow (Some ''p'') [] [Flow (Some ''T'') [] []]]) [0, 0] =
     Some (Flow (Some ''T'') [] []) \<and>
   remarkScopedMdx sampleEncoder
     [(''Outer'', \<lparr>renameFlow = Declared [(''p'', renameTo ''S'')]\<rparr>),
      (''S'', \<lparr>renameFlow = Declared [(''T'', renameTo ''X'')]\<rparr>)]
     (Flow (Some ''Outer'') [] [Flow (Some ''p'') [] [Flow (Some ''T'') [] []]]) =
     (Flow (Some ''Outer'') [] [Flow (Some ''S'') [] [Flow (Some ''X'') [] []]],
      [([], Tested True), ([0], Renamed (renameTo ''S'')), ([0], Tested True),
       ([0, 0], Renamed (renameTo ''X'')), ([0, 0], Tested False)],
      None)"
  by (auto simp: scopesRenaming_def run_simps)

text \<open>
  C1, amended. Let the tag name \<open>tag\<close> be a source key of no rename map but that of
  \<open>scope\<close>, and let no rewrite target of the registry have the name \<open>scope\<close>. Then
  for every tree, the transformation applies no rename to an element named \<open>tag\<close>
  that has no ancestor named \<open>scope\<close>; if the element is still in the tree afterwards
  (no ancestor had its children cleared), it is there with its name, its attributes
  and its number of children.
\<close>

theorem scope_exclusivity:
  assumes "remarkScopedMdx enc registry tree = (tree', l, e)"
    and "scopesRenaming registry tag \<subseteq> {scope}"
    and "\<forall>t \<in> renameTargets registry. name (component t) \<noteq> scope"
    and "nodeAt tree p = Some (Flow (Some tag) as cs)"
    and "\<forall>q m. strict_prefix q p \<and> nodeAt tree q = Some m \<longrightarrow> elementName m \<noteq> Some scope"
  shows "(\<forall>t. (p, Renamed t) \<notin> set l) \<and>
    (nodeAt tree' p = None \<or>
     (\<exists>cs'. nodeAt tree' p = Some (Flow (Some tag) as cs') \<and> length cs' = length cs))"
  using outerVisit_frame[OF assms(2,3) assms(1)[unfolded remarkScopedMdx_def] assms(4,5)]
  by auto

theorem scope_exclusivity_witness:
  "nodeAt (fst (remarkScopedMdx sampleEncoder
       [(''S'', \<lparr>renameFlow = Declared [(''T'', renameTo ''X'')]\<rparr>)]
       (Other ''root'' [Flow (Some ''T'') [] [], Flow (Some ''S'') [] [Flow (Some ''T'') [] []]])))
     [0] = Some (Flow (Some ''T'') [] []) \<and>
   ([0], Renamed (renameTo ''X'')) \<notin> set (fst (snd (remarkScopedMdx sampleEncoder
       [(''S'', \<lparr>renameFlow = Declared [(''T'', renameTo ''X'')]\<rparr>)]
       (Other ''root'' [Flow (Some ''T'') [] [], Flow (Some ''S'') [] [Flow (Some ''T'') [] []]]))))"
proof -
  let ?reg = "[(''S'', \<lparr>renameFlow = Declared [(''T'', renameTo ''X'')]\<rparr>)]"
  let ?tree = "Other ''root'' [Flow (Some ''T'') [] [], Flow (Some ''S'') [] [Flow (Some ''T'') [] []]]
                 :: js_value node"
  have run: "remarkScopedMdx sampleEncoder ?reg ?tree =
      (Other ''root'' [Flow (Some ''T'') [] [], Flow (Some ''S'') [] [Flow (Some ''X'') [] []]],
       [([], Tested False), ([0], Tested False), ([1], Tested True),
        ([1, 0], Renamed (renameTo ''X'')), ([1, 0], Tested False)], None)"
    by (simp add: run_simps)
  have only: "scopesRenaming ?reg ''T'' \<subseteq> {''S''}"
    by (auto simp: scopesRenaming_def)
  have fresh: "\<forall>t \<in> renameTargets ?reg. name (component t) \<noteq> ''S''"
    by (auto simp: renameTargets_def renameTo_def)
  have at: "nodeAt ?tree [0] = Some (Flow (Some ''T'') [] [])"
    by simp
  have above: "\<forall>q m. strict_prefix q [0] \<and> nodeAt ?tree q = Some m \<longrightarrow> elementName m \<noteq> Some ''S''"
    by (auto simp: strict_prefix_def prefix_Cons)
  from scope_exclusivity[OF run only fresh at above] run show ?thesis
    by auto
qed

text \<open>
  C2 (nested boundary). Let \<open>nested\<close> be an element strictly below the scope root whose
  name is a key of the registry, whether or not its entry declares a rename map. The
  inner walk of the scope root applies no rename at \<open>nested\<close> or below it, and
  \<open>nested\<close>, if it is still in the tree afterwards, is there with its whole subtree
  as it was.
\<close>

theorem nested_boundary:
  assumes "createScopeVisitor enc registry (scopeComponentNames registry) scopeElement =
             (scopeElement', l, e)"
    and "nodeAt scopeElement q = Some nested" and "q \<noteq> []"
    and "elementName nested = Some n2" and "n2 \<in> fst ` set registry"
  shows "(\<forall>p x. (p, x) \<in> set l \<longrightarrow> \<not> prefix q p) \<and>
         (nodeAt scopeElement' q = None \<or> nodeAt scopeElement' q = Some nested)"
proof -
  have b: "boundary (scopeComponentNames registry) nested"
    using assms(4,5) by (simp add: boundary_def scopeComponentNames_def)
  have no: "\<not> prefix q p" if "(p, x) \<in> set l" for p x
  proof
    assume pre: "prefix q p"
    from createScopeVisitor_renamed[OF assms(1) that] obtain n as cs where
      at: "nodeAt scopeElement p = Some (Flow (Some n) as cs)"
      and n: "n \<notin> scopeComponentNames registry"
      and above: "\<forall>q. strict_prefix q p \<and> q \<noteq> [] \<longrightarrow>
         (\<exists>m. nodeAt scopeElement q = Some m \<and> \<not> boundary (scopeComponentNames registry) m)"
      by blast
    show False
    proof (cases "q = p")
      case True
      with at assms(2) b n show False by (auto simp: boundary_def)
    next
      case False
      with pre have "strict_prefix q p" by (simp add: strict_prefix_def)
      with above assms(2,3) b show False by auto
    qed
  qed
  then have frame: "\<forall>p x. (p, x) \<in> set l \<longrightarrow> \<not> prefix q p" by blast
  from createScopeVisitor_subtree[OF assms(1) frame assms(3)] assms(2) frame
  show ?thesis by simp
qed

theorem nested_boundary_witness:
  "createScopeVisitor sampleEncoder
     [(''Outer'', \<lparr>renameFlow = Declared [(''para'', renameTo ''A'')]\<rparr>),
      (''Inner'', \<lparr>renameFlow = Absent\<rparr>)]
     (scopeComponentNames
        [(''Outer'', \<lparr>renameFlow = Declared [(''para'', renameTo ''A'')]\<rparr>),
         (''Inner'', \<lparr>renameFlow = Absent\<rparr>)])
     (Flow (Some ''Outer'') []
        [Flow (Some ''para'') [] [], Flow (Some ''Inner'') [] [Flow (Some ''para'') [] []]]) =
     (Flow (Some ''Outer'') []
        [Flow (Some ''A'') [] [], Flow (Some ''Inner'') [] [Flow (Some ''para'') [] []]],
      [([0], Renamed (renameTo ''A''))], None) \<and>
   \<not> prefix [1] [0::nat]"
proof -
  let ?reg = "[(''Outer'', \<lparr>renameFlow = Declared [(''para'', renameTo ''A'')]\<rparr>),
      (''Inner'', \<lparr>renameFlow = Absent\<rparr>)]"
  let ?el = "Flow (Some ''Outer'') []
        [Flow (Some ''para'') [] [], Flow (Some ''Inner'') [] [Flow (Some ''para'') [] []]]
        :: js_value node"
  have run: "createScopeVisitor sampleEncoder ?reg (scopeComponentNames ?reg) ?el =
     (Flow (Some ''Outer'') []
        [Flow (Some ''A'') [] [], Flow (Some ''Inner'') [] [Flow (Some ''para'') [] []]],
      [([0], Renamed (renameTo ''A''))], None)"
    by (simp add: run_simps)
  have at: "nodeAt ?el [1] = Some (Flow (Some ''Inner'') [] [Flow (Some ''para'') [] []])"
    by simp
  have nm: "elementName (Flow (Some ''Inner'') [] [Flow (Some ''para'') [] []] :: js_value node)
              = Some ''Inner''"
    by simp
  have key: "''Inner'' \<in> fst ` set ?reg" by simp
  from nested_boundary[OF run at _ nm key] run show ?thesis by simp
qed

section \<open>The two name sets\<close>

text \<open>
  C3 as stated fails: the set used for boundary detection holds every registry key,
  also the key of an entry that declares no rename map. Here \<^verbatim>\<open>Aside\<close> is such a key:
  it is no scope root, yet the inner walk of \<^verbatim>\<open>Scope\<close> stops at it and \<^verbatim>\<open>p\<close> below
  it keeps its name.
\<close>

theorem active_scope_names_counterexample:
  "activeScopeNames
     [(''Scope'', \<lparr>renameFlow = Declared [(''p'', renameTo ''X'')]\<rparr>),
      (''Aside'', \<lparr>renameFlow = Absent\<rparr>)] = {''Scope''} \<and>
   scopeComponentNames
     [(''Scope'', \<lparr>renameFlow = Declared [(''p'', renameTo ''X'')]\<rparr>),
      (''Aside'', \<lparr>renameFlow = Absent\<rparr>)] = {''Scope'', ''Aside''} \<and>
   remarkScopedMdx sampleEncoder
     [(''Scope'', \<lparr>renameFlow = Declared [(''p'', renameTo ''X'')]\<rparr>),
      (''Aside'', \<lparr>renameFlow = Absent\<rparr>)]
     (Flow (Some ''Scope'') [] [Flow (Some ''Aside'') [] [Flow (Some ''p'') [] []]]) =
     (Flow (Some ''Scope'') [] [Flow (Some ''Aside'') [] [Flow (Some ''p'') [] []]],
      [([], Tested True), ([0], Tested False), ([0, 0], Tested False)], None)"
  by (simp add: run_simps)

text \<open>
  C3, amended. Two name sets are used. Scope-root discovery uses \<^verbatim>\<open>activeScopeNames\<close>,
  the keys of the registry entries that have an own \<^verbatim>\<open>renameFlow\<close> property (also one
  that is an empty map or \<^verbatim>\<open>undefined\<close>). Boundary detection in the inner walk uses
  \<^verbatim>\<open>scopeComponentNames\<close>, the set of all registry keys. The first set is a subset of
  the second, and the two are the same set exactly when every registry key has an entry
  with the property. In a run of \<^verbatim>\<open>remarkScopedMdx\<close>:

  \<^item> a node is tested as a scope root with a positive result exactly when its name is
    in the first set, and a run that does not throw tests every node;

  \<^item> when no rewrite target is named by a registry key, every rename is applied to an
    element that is not named by a registry key, under the rename map of its nearest
    proper ancestor named by any registry key;

  \<^item> when in addition no rewrite target clears the children and the run does not throw,
    every such element with a rule in that map is renamed.
\<close>

theorem active_scope_names:
  assumes "remarkScopedMdx enc registry tree = (tree', l, e)"
  shows "activeScopeNames registry =
     {n. \<exists>rule. (n, rule) \<in> set registry \<and> renameFlow rule \<noteq> Absent} \<and>
   scopeComponentNames registry = {n. \<exists>rule. (n, rule) \<in> set registry} \<and>
   activeScopeNames registry \<subseteq> scopeComponentNames registry \<and>
   (activeScopeNames registry = scopeComponentNames registry \<longleftrightarrow>
      (\<forall>n \<in> scopeComponentNames registry.
         \<exists>rule. (n, rule) \<in> set registry \<and> renameFlow rule \<noteq> Absent)) \<and>
   (\<forall>p b. (p, Tested b) \<in> set l \<longrightarrow>
      (\<exists>node. nodeAt tree' p = Some node \<and>
         (b \<longleftrightarrow> (\<exists>n. elementName node = Some n \<and> n \<in> activeScopeNames registry)))) \<and>
   (e = None \<longrightarrow> (\<forall>p node. nodeAt tree' p = Some node \<longrightarrow> (\<exists>b. (p, Tested b) \<in> set l))) \<and>
   ((\<forall>t \<in> renameTargets registry. name (component t) \<notin> scopeComponentNames registry) \<longrightarrow>
      (\<forall>p t. (p, Renamed t) \<in> set l \<longrightarrow> governed registry tree p t)) \<and>
   ((\<forall>t \<in> renameTargets registry.
        name (component t) \<notin> scopeComponentNames registry \<and> \<not> clearsChildren t) \<and>
    e = None \<longrightarrow>
      (\<forall>p t. governed registry tree p t \<longrightarrow> (p, Renamed t) \<in> set l))"
proof -
  from assms have run:
    "outerVisit enc registry (scopeComponentNames registry) tree = (tree', l, e)"
    by (simp add: remarkScopedMdx_def)
  have a: "activeScopeNames registry =
     {n. \<exists>rule. (n, rule) \<in> set registry \<and> renameFlow rule \<noteq> Absent}"
    by (force simp: activeScopeNames_def hasOwn_renameFlow_def)
  have b: "scopeComponentNames registry = {n. \<exists>rule. (n, rule) \<in> set registry}"
    by (force simp: scopeComponentNames_def)
  from a b have c: "activeScopeNames registry \<subseteq> scopeComponentNames registry" by blast
  from a b have d: "activeScopeNames registry = scopeComponentNames registry \<longleftrightarrow>
      (\<forall>n \<in> scopeComponentNames registry.
         \<exists>rule. (n, rule) \<in> set registry \<and> renameFlow rule \<noteq> Absent)"
    by blast
  have f: "\<forall>p b. (p, Tested b) \<in> set l \<longrightarrow>
      (\<exists>node. nodeAt tree' p = Some node \<and>
         (b \<longleftrightarrow> (\<exists>n. elementName node = Some n \<and> n \<in> activeScopeNames registry)))"
  proof (intro allI impI)
    fix p b
    assume "(p, Tested b) \<in> set l"
    from outerVisit_matched[OF run this] obtain node where
      "nodeAt tree' p = Some node" "b = shouldProcessScope registry node"
      by blast
    then show "\<exists>node. nodeAt tree' p = Some node \<and>
         (b \<longleftrightarrow> (\<exists>n. elementName node = Some n \<and> n \<in> activeScopeNames registry))"
      by (auto simp: shouldProcessScope_active)
  qed
  have g: "e = None \<longrightarrow> (\<forall>p node. nodeAt tree' p = Some node \<longrightarrow> (\<exists>b. (p, Tested b) \<in> set l))"
  proof (intro allI impI)
    fix p node
    assume "e = None" "nodeAt tree' p = Some node"
    with run outerVisit_tested[of enc registry "scopeComponentNames registry" tree tree' l]
      paths_complete[of tree' p node]
    have "p \<in> set (tested l)" by simp
    then show "\<exists>b. (p, Tested b) \<in> set l" by (simp add: set_tested)
  qed
  have h: "(\<forall>t \<in> renameTargets registry. name (component t) \<notin> scopeComponentNames registry) \<longrightarrow>
      (\<forall>p t. (p, Renamed t) \<in> set l \<longrightarrow> governed registry tree p t)"
    using outerVisit_governed[OF _ run] by blast
  have i: "(\<forall>t \<in> renameTargets registry.
        name (component t) \<notin> scopeComponentNames registry \<and> \<not> clearsChildren t) \<and>
    e = None \<longrightarrow>
      (\<forall>p t. governed registry tree p t \<longrightarrow> (p, Renamed t) \<in> set l)"
  proof (intro allI impI)
    fix p t
    assume h: "(\<forall>t \<in> renameTargets registry.
        name (component t) \<notin> scopeComponentNames registry \<and> \<not> clearsChildren t) \<and> e = None"
      and gov: "governed registry tree p t"
    from h have fresh: "\<forall>t \<in> renameTargets registry.
        name (component t) \<notin> scopeComponentNames registry"
      and nc: "\<forall>t \<in> renameTargets registry. \<not> clearsChildren t"
      by blast+
    from h run have "outerVisit enc registry (scopeComponentNames registry) tree = (tree', l, None)"
      by simp
    from outerVisit_complete[OF fresh nc this gov] show "(p, Renamed t) \<in> set l" .
  qed
  from a b c d f g h i show ?thesis by blast
qed

theorem active_scope_names_witness:
  "remarkScopedMdx sampleEncoder
     [(''Scope'', \<lparr>renameFlow = Declared [(''p'', renameTo ''X'')]\<rparr>),
      (''Aside'', \<lparr>renameFlow = Absent\<rparr>)]
     (Flow (Some ''Scope'') []
        [Flow (Some ''p'') [] [], Flow (Some ''Aside'') [] [Flow (Some ''p'') [] []]]) =
     (Flow (Some ''Scope'') []
        [Flow (Some ''X'') [] [], Flow (Some ''Aside'') [] [Flow (Some ''p'') [] []]],
      [([], Tested True), ([0], Renamed (renameTo ''X'')), ([0], Tested False),
       ([1], Tested False), ([1, 0], Tested False)], None) \<and>
   (\<forall>p t. governed
       [(''Scope'', \<lparr>renameFlow = Declared [(''p'', renameTo ''X'')]\<rparr>),
        (''Aside'', \<lparr>renameFlow = Absent\<rparr>)]
       (Flow (Some ''Scope'') []
          [Flow (Some ''p'') [] [], Flow (Some ''Aside'') [] [Flow (Some ''p'') [] []]]
        :: js_value node) p t =
     (p = [0] \<and> t = renameTo ''X''))"
proof -
  let ?R = "[(''Scope'', \<lparr>renameFlow = Declared [(''p'', renameTo ''X'')]\<rparr>),
             (''Aside'', \<lparr>renameFlow = Absent\<rparr>)]"
  let ?T = "Flow (Some ''Scope'') []
        [Flow (Some ''p'') [] [], Flow (Some ''Aside'') [] [Flow (Some ''p'') [] []]]
        :: js_value node"
  let ?T' = "Flow (Some ''Scope'') []
        [Flow (Some ''X'') [] [], Flow (Some ''Aside'') [] [Flow (Some ''p'') [] []]]"
  let ?L = "[([], Tested True), ([0], Renamed (renameTo ''X'')), ([0], Tested False),
       ([1], Tested False), ([1, 0], Tested False)]"
  have run: "remarkScopedMdx sampleEncoder ?R ?T = (?T', ?L, None)"
    by (simp add: run_simps)
  have fresh: "\<forall>t \<in> renameTargets ?R. name (component t) \<notin> scopeComponentNames ?R"
    by (auto simp: renameTargets_def scopeComponentNames_def renameTo_def)
  have keep: "(\<forall>t \<in> renameTargets ?R.
      name (component t) \<notin> scopeComponentNames ?R \<and> \<not> clearsChildren t) \<and>
      (None :: thrown option) = None"
    by (auto simp: renameTargets_def scopeComponentNames_def clearsChildren_def renameTo_def)
  note t = active_scope_names[OF run]
  note sound = t[THEN conjunct2, THEN conjunct2, THEN conjunct2, THEN conjunct2,
      THEN conjunct2, THEN conjunct2, THEN conjunct1, THEN mp, OF fresh, rule_format]
  note complete = t[THEN conjunct2, THEN conjunct2, THEN conjunct2, THEN conjunct2,
      THEN conjunct2, THEN conjunct2, THEN conjunct2, THEN mp, OF keep, rule_format]
  have "governed ?R ?T p t = (p = [0] \<and> t = renameTo ''X'')" for p t
  proof
    assume "governed ?R ?T p t"
    from complete[OF this] show "p = [0] \<and> t = renameTo ''X''" by simp
  next
    assume "p = [0] \<and> t = renameTo ''X''"
    then have "(p, Renamed t) \<in> set ?L" by simp
    from sound[OF this] show "governed ?R ?T p t" .
  qed
  with run show ?thesis by blast
qed

section \<open>The outer walk below a scope root\<close>

text \<open>
  C4 as stated fails: the visitor of the outer walk returns nothing, so the walk goes on
  below a matched node. Here \<^verbatim>\<open>Outer\<close> at the root is matched, and the outer walk then
  tests both of its children and matches \<^verbatim>\<open>Inner\<close>, strictly inside the subtree of the
  root; that is how \<^verbatim>\<open>para\<close> below \<^verbatim>\<open>Inner\<close> comes to be renamed by the rule of
  \<^verbatim>\<open>Inner\<close>.
\<close>

theorem outer_descends_counterexample:
  "remarkScopedMdx sampleEncoder
     [(''Outer'', \<lparr>renameFlow = Declared [(''para'', renameTo ''A'')]\<rparr>),
      (''Inner'', \<lparr>renameFlow = Declared [(''para'', renameTo ''B'')]\<rparr>)]
     (Flow (Some ''Outer'') []
        [Flow (Some ''para'') [] [], Flow (Some ''Inner'') [] [Flow (Some ''para'') [] []]]) =
     (Flow (Some ''Outer'') []
        [Flow (Some ''A'') [] [], Flow (Some ''Inner'') [] [Flow (Some ''B'') [] []]],
      [([], Tested True), ([0], Renamed (renameTo ''A'')), ([0], Tested False),
       ([1], Tested True), ([1, 0], Renamed (renameTo ''B'')), ([1, 0], Tested False)],
      None) \<and>
   strict_prefix [] [1::nat]"
  by (simp add: run_simps)

text \<open>
  C4, amended. After the outer walk matched a node and ran the inner walk on it, it goes
  on into the children of that node as the inner walk left them. When the
  transformation returns without a throw, the outer walk has tested every node of the
  resulting tree exactly once, in document order, the nodes inside matched scope roots
  included. Every node it tested is in the resulting tree, and was matched exactly when
  its name there is an active scope name.
\<close>

theorem outer_descends:
  assumes "remarkScopedMdx enc registry tree = (tree', l, e)"
  shows "(e = None \<longrightarrow> tested l = paths tree' \<and> distinct (tested l)) \<and>
         (\<forall>p b. (p, Tested b) \<in> set l \<longrightarrow>
            (\<exists>n. nodeAt tree' p = Some n \<and> b = shouldProcessScope registry n))"
proof -
  from assms have ov: "outerVisit enc registry (scopeComponentNames registry) tree = (tree', l, e)"
    by (simp add: remarkScopedMdx_def)
  have "tested l = paths tree'" if "e = None"
    using outerVisit_tested ov that by blast
  with distinct_paths(1)[of tree'] outerVisit_matched[OF ov] show ?thesis by auto
qed

theorem outer_descends_witness:
  "tested (fst (snd (remarkScopedMdx sampleEncoder
     [(''Outer'', \<lparr>renameFlow = Declared [(''para'', renameTo ''A'')]\<rparr>),
      (''Inner'', \<lparr>renameFlow = Declared [(''para'', renameTo ''B'')]\<rparr>)]
     (Flow (Some ''Outer'') []
        [Flow (Some ''para'') [] [], Flow (Some ''Inner'') [] [Flow (Some ''para'') [] []]])))) =
   [[], [0], [1], [1, 0]] \<and>
   shouldProcessScope
     [(''Outer'', \<lparr>renameFlow = Declared [(''para'', renameTo ''A'')]\<rparr>),
      (''Inner'', \<lparr>renameFlow = Declared [(''para'', renameTo ''B'')]\<rparr>)]
     (Flow (Some ''Inner'') [] [Flow (Some ''B'') [] []] :: js_value node)"
proof -
  let ?reg = "[(''Outer'', \<lparr>renameFlow = Declared [(''para'', renameTo ''A'')]\<rparr>),
      (''Inner'', \<lparr>renameFlow = Declared [(''para'', renameTo ''B'')]\<rparr>)]"
  let ?tree = "Flow (Some ''Outer'') []
        [Flow (Some ''para'') [] [], Flow (Some ''Inner'') [] [Flow (Some ''para'') [] []]]
        :: js_value node"
  have run: "remarkScopedMdx sampleEncoder ?reg ?tree =
     (Flow (Some ''Outer'') []
        [Flow (Some ''A'') [] [], Flow (Some ''Inner'') [] [Flow (Some ''B'') [] []]],
      [([], Tested True), ([0], Renamed (renameTo ''A'')), ([0], Tested False),
       ([1], Tested True), ([1, 0], Renamed (renameTo ''B'')), ([1, 0], Tested False)],
      None)"
    by (simp add: run_simps)
  from outer_descends[OF run] run show ?thesis by (simp add: run_simps)
qed

section \<open>Renames per node\<close>

text \<open>
  C5 as stated fails when a rewrite target has the name of an active scope. The inner
  walk of \<^verbatim>\<open>Outer\<close> renames \<^verbatim>\<open>p\<close> to \<^verbatim>\<open>Inner\<close> and, below it, \<^verbatim>\<open>q\<close> to \<^verbatim>\<open>A\<close>. The
  outer walk then matches the renamed element as the scope root \<^verbatim>\<open>Inner\<close>, whose inner
  walk renames the same node again, from \<^verbatim>\<open>A\<close> to \<^verbatim>\<open>B\<close>.
\<close>

theorem at_most_once_counterexample:
  "remarkScopedMdx sampleEncoder
     [(''Outer'', \<lparr>renameFlow = Declared [(''p'', renameTo ''Inner''), (''q'', renameTo ''A'')]\<rparr>),
      (''Inner'', \<lparr>renameFlow = Declared [(''A'', renameTo ''B'')]\<rparr>)]
     (Flow (Some ''Outer'') [] [Flow (Some ''p'') [] [Flow (Some ''q'') [] []]]) =
     (Flow (Some ''Outer'') [] [Flow (Some ''Inner'') [] [Flow (Some ''B'') [] []]],
      [([], Tested True), ([0], Renamed (renameTo ''Inner'')), ([0, 0], Renamed (renameTo ''A'')),
       ([0], Tested True), ([0, 0], Renamed (renameTo ''B'')), ([0, 0], Tested False)],
      None) \<and>
   \<not> distinct (renamed
      [([], Tested True), ([0], Renamed (renameTo ''Inner'')), ([0, 0], Renamed (renameTo ''A'')),
       ([0], Tested True), ([0, 0], Renamed (renameTo ''B'')), ([0, 0], Tested False)])"
  by (simp add: run_simps)

text \<open>
  C5, amended. For every tree and every registry in which no rewrite target has the
  name of an active scope (a registry key whose entry declares a rename map), one call
  of the transformation applies a rename to each node at most once.
\<close>

theorem at_most_once:
  assumes "remarkScopedMdx enc registry tree = (tree', l, e)"
    and "\<forall>t \<in> renameTargets registry. name (component t) \<notin> activeScopeNames registry"
  shows "distinct (renamed l)"
proof -
  have "activeScopeNames registry \<subseteq> scopeComponentNames registry"
    by (auto simp: activeScopeNames_def scopeComponentNames_def)
  from outerVisit_distinct[OF assms(2) this] assms(1) show ?thesis
    by (simp add: remarkScopedMdx_def)
qed

theorem at_most_once_witness:
  "distinct (renamed (fst (snd (remarkScopedMdx sampleEncoder
     [(''Outer'', \<lparr>renameFlow = Declared [(''para'', renameTo ''A'')]\<rparr>),
      (''Inner'', \<lparr>renameFlow = Declared [(''para'', renameTo ''B'')]\<rparr>)]
     (Flow (Some ''Outer'') []
        [Flow (Some ''para'') [] [], Flow (Some ''Inner'') [] [Flow (Some ''para'') [] []]])))))"
proof -
  let ?reg = "[(''Outer'', \<lparr>renameFlow = Declared [(''para'', renameTo ''A'')]\<rparr>),
      (''Inner'', \<lparr>renameFlow = Declared [(''para'', renameTo ''B'')]\<rparr>)]"
  let ?tree = "Flow (Some ''Outer'') []
        [Flow (Some ''para'') [] [], Flow (Some ''Inner'') [] [Flow (Some ''para'') [] []]]
        :: js_value node"
  obtain tree' l e where run: "remarkScopedMdx sampleEncoder ?reg ?tree = (tree', l, e)"
    by (cases "remarkScopedMdx sampleEncoder ?reg ?tree") auto
  have fresh: "\<forall>t \<in> renameTargets ?reg. name (component t) \<notin> activeScopeNames ?reg"
    by (auto simp: renameTargets_def renameTo_def activeScopeNames_def hasOwn_renameFlow_def)
  from at_most_once[OF run fresh] run show ?thesis by simp
qed

section \<open>The rename applier and the attribute builder\<close>

text \<open>
  C6 (children policy). When \<^verbatim>\<open>applyFlowRename\<close> returns and the target's
  \<^verbatim>\<open>childrenPolicy\<close> is \<^verbatim>\<open>'clear'\<close>, the element's children are the empty list,
  whatever they were. When the policy is \<^verbatim>\<open>'preserve'\<close> or not given (no
  \<^verbatim>\<open>transformOptions\<close>, or no \<^verbatim>\<open>childrenPolicy\<close> in them), the children are the list
  they were: the field is not assigned, also when the call throws.
\<close>

theorem children_policy:
  "applyFlowRename enc (Flow n as cs) target = (element, e) \<Longrightarrow>
   ((\<exists>opts. transformOptions target = Some opts \<and> childrenPolicy opts = Some Clear) \<and> e = None
      \<longrightarrow> children element = []) \<and>
   ((transformOptions target = None \<or>
     (\<exists>opts. transformOptions target = Some opts \<and>
        (childrenPolicy opts = None \<or> childrenPolicy opts = Some Preserve)))
      \<longrightarrow> children element = cs)"
  by (auto simp: clearsChildren_def split: sum.splits)

theorem children_policy_witness:
  "children (fst (applyFlowRename sampleEncoder
      (Flow (Some ''mark'') [] [Other ''text'' [], Other ''text'' []])
      (renameWith ''Blank'' [] Clear))) = [] \<and>
   children (fst (applyFlowRename sampleEncoder
      (Flow (Some ''para'') [] [Other ''text'' []])
      (renameWith ''Note'' [(''tone'', JStr ''info'')] Preserve))) = [Other ''text'' []] \<and>
   children (fst (applyFlowRename sampleEncoder
      (Flow (Some ''para'') [] [Other ''text'' []]) (renameTo ''Note''))) = [Other ''text'' []]"
  using children_policy[of sampleEncoder "Some ''mark''" "[]" "[Other ''text'' [], Other ''text'' []]"
          "renameWith ''Blank'' [] Clear"
          "fst (applyFlowRename sampleEncoder
      (Flow (Some ''mark'') [] [Other ''text'' [], Other ''text'' []])
      (renameWith ''Blank'' [] Clear))" None]
   children_policy[of sampleEncoder "Some ''para''" "[]" "[Other ''text'' []]"
          "renameWith ''Note'' [(''tone'', JStr ''info'')] Preserve"
          "fst (applyFlowRename sampleEncoder
      (Flow (Some ''para'') [] [Other ''text'' []])
      (renameWith ''Note'' [(''tone'', JStr ''info'')] Preserve))" None]
   children_policy[of sampleEncoder "Some ''para''" "[]" "[Other ''text'' []]"
          "renameTo ''Note''"
          "fst (applyFlowRename sampleEncoder
      (Flow (Some ''para'') [] [Other ''text'' []])
      (renameTo ''Note''))" None]
  by (simp add: renameWith_def renameTo_def buildAttributes_def toMdxAttribute_def
        createAttributeValueExpression_def sampleEncoder_def clearsChildren_def)

text \<open>
  C7 (boolean fast path). For every prop name, the value \<^verbatim>\<open>true\<close> gives the attribute
  with \<^verbatim>\<open>value: null\<close>. A value other than \<^verbatim>\<open>true\<close> never gives a presence-only
  attribute, and whenever the serializer returns an expression for it, the attribute
  carries the value expression whose \<^verbatim>\<open>data.estree\<close> is the program of that one
  expression statement.
\<close>

theorem boolean_fast_path:
  "toMdxAttribute enc propName (JBool True) = Inr (MdxJsxAttribute propName Null) \<and>
   (v \<noteq> JBool True \<longrightarrow>
      toMdxAttribute enc propName v \<noteq> Inr (MdxJsxAttribute n' Null) \<and>
      (\<forall>expression. enc v = Inr expression \<longrightarrow>
         toMdxAttribute enc propName v =
           Inr (MdxJsxAttribute propName
                 (ValueExpression
                    \<lparr>value = [],
                     estree = \<lparr>sourceType = ''module'',
                               body = [ExpressionStatement expression]\<rparr>\<rparr>))))"
  by (auto simp: toMdxAttribute_def createAttributeValueExpression_def split: sum.splits)

theorem boolean_fast_path_witness:
  "toMdxAttribute sampleEncoder ''enabled'' (JBool True) = Inr (MdxJsxAttribute ''enabled'' Null) \<and>
   toMdxAttribute sampleEncoder ''variant'' (JStr ''red'') =
     Inr (MdxJsxAttribute ''variant''
           (ValueExpression
              \<lparr>value = [],
               estree = \<lparr>sourceType = ''module'',
                         body = [ExpressionStatement (JStr ''red'')]\<rparr>\<rparr>)) \<and>
   toMdxAttribute sampleEncoder ''enabled'' (JBool False) \<noteq> Inr (MdxJsxAttribute ''enabled'' Null)"
  using boolean_fast_path[of sampleEncoder "''enabled''" "JBool False" "''enabled''"]
        boolean_fast_path[of sampleEncoder "''variant''" "JStr ''red''" "''variant''"]
  by (simp add: sampleEncoder_def)

text \<open>
  C8 (serialization failure). Let the transformation apply a rename whose target has
  props in which the entry \<open>(propName, v)\<close> is the first that the serializer rejects
  (with any thrown value \<open>err\<close>). Then \<^verbatim>\<open>toMdxAttribute\<close> throws an \<^verbatim>\<open>Error\<close> whose
  message is \<^verbatim>\<open>Failed to serialize MDX prop "\<close>, \<open>propName\<close>,
  \<^verbatim>\<open>" into an attribute expression: \<close> and the message of \<open>err\<close>
  (\<^verbatim>\<open>Unknown serialization error\<close> when \<open>err\<close> is no \<^verbatim>\<open>Error\<close>), the transformation
  ends with exactly this thrown value, and that rename is the last event of the
  transformation: nothing catches the error and nothing runs after it.
\<close>

theorem serialization_failure:
  assumes "remarkScopedMdx enc registry tree = (tree', l, e)"
    and "(p, Renamed target) \<in> set l"
    and "props (component target) = Some (pre @ (propName, v) # post)"
    and "\<forall>(n', v') \<in> set pre. v' = JUndefined \<or> v' = JBool True \<or> (\<exists>ex. enc v' = Inr ex)"
    and "v \<noteq> JUndefined" and "v \<noteq> JBool True" and "enc v = Inl err"
  shows "toMdxAttribute enc propName v =
           Inl (Error (''Failed to serialize MDX prop '' @ [CHR 0x22] @ propName @ [CHR 0x22] @
                       '' into an attribute expression: '' @
                       (case err of Error m \<Rightarrow> m
                        | NonError x \<Rightarrow> ''Unknown serialization error''))) \<and>
         e = Some (Error (''Failed to serialize MDX prop '' @ [CHR 0x22] @ propName @ [CHR 0x22] @
                       '' into an attribute expression: '' @
                       (case err of Error m \<Rightarrow> m
                        | NonError x \<Rightarrow> ''Unknown serialization error''))) \<and>
         last l = (p, Renamed target)"
proof -
  let ?wrapped = "Error (serializationMessage propName (errorMessage err))"
  have msg: "?wrapped =
     Error (''Failed to serialize MDX prop '' @ [CHR 0x22] @ propName @ [CHR 0x22] @
            '' into an attribute expression: '' @
            (case err of Error m \<Rightarrow> m | NonError x \<Rightarrow> ''Unknown serialization error''))"
    by (simp add: serializationMessage_def errorMessage_def)
  have attr: "toMdxAttribute enc propName v = Inl ?wrapped"
    using assms(6,7) by (simp add: toMdxAttribute_def createAttributeValueExpression_def)
  have f: "failsWith enc target ?wrapped"
    using buildAttributesLoop_first_failure[OF assms(4-7)] assms(3)
    by (simp add: failsWith_def buildAttributes_def)
  have o: "orderly enc l e"
    using outerVisit_orderly assms(1) by (simp add: remarkScopedMdx_def)
  have "e = Some ?wrapped \<and> last l = (p, Renamed target)"
  proof (cases e)
    case None
    with o f assms(2) show ?thesis by (auto simp: orderly_def clean_def)
  next
    case (Some err')
    with o consider
        (rename) l0 p' t' where "l = l0 @ [(p', Renamed t')]" "failsWith enc t' err'"
          "clean enc l0"
      | (inherited) "clean enc l"
      by (auto simp: orderly_def)
    then show ?thesis
    proof cases
      case rename
      from assms(2) rename(1,3) f have eq: "(p, Renamed target) = (p', Renamed t')"
        by (auto simp: clean_def)
      with f rename(2) have "err' = ?wrapped" by (simp add: failsWith_def)
      with Some rename(1) eq show ?thesis by simp
    next
      case inherited
      with f assms(2) show ?thesis by (auto simp: clean_def)
    qed
  qed
  with attr show ?thesis unfolding msg by simp
qed

theorem serialization_failure_witness:
  "remarkScopedMdx sampleEncoder
     [(''Scope'', \<lparr>renameFlow = Declared
         [(''mark'', renameWith ''Note'' [(''tone'', JStr ''info''), (''handle'', JOpaque 0)] Clear)]\<rparr>)]
     (Flow (Some ''Scope'') []
        [Flow (Some ''mark'') [] [Other ''text'' []], Flow (Some ''mark'') [] []]) =
     (Flow (Some ''Scope'') []
        [Flow (Some ''Note'') [] [Other ''text'' []], Flow (Some ''mark'') [] []],
      [([], Tested True),
       ([0], Renamed (renameWith ''Note'' [(''tone'', JStr ''info''), (''handle'', JOpaque 0)] Clear))],
      Some (Error (''Failed to serialize MDX prop '' @ [CHR 0x22] @ ''handle'' @ [CHR 0x22] @
                   '' into an attribute expression: Unsupported value'')))"
proof -
  let ?t = "renameWith ''Note'' [(''tone'', JStr ''info''), (''handle'', JOpaque 0)] Clear"
  let ?reg = "[(''Scope'', \<lparr>renameFlow = Declared [(''mark'', ?t)]\<rparr>)]"
  let ?tree = "Flow (Some ''Scope'') []
        [Flow (Some ''mark'') [] [Other ''text'' []], Flow (Some ''mark'') [] []] :: js_value node"
  obtain tree' l e where run: "remarkScopedMdx sampleEncoder ?reg ?tree = (tree', l, e)"
    by (cases "remarkScopedMdx sampleEncoder ?reg ?tree") auto
  have shape: "tree' = Flow (Some ''Scope'') []
        [Flow (Some ''Note'') [] [Other ''text'' []], Flow (Some ''mark'') [] []]"
    "l = [([], Tested True), ([0], Renamed ?t)]"
    using run by (simp_all add: run_simps serializationMessage_def errorMessage_def)
  have mem: "([0], Renamed ?t) \<in> set l" using shape by simp
  have ps: "props (component ?t) = Some ([(''tone'', JStr ''info'')] @ (''handle'', JOpaque 0) # [])"
    by (simp add: renameWith_def)
  have pre: "\<forall>(n', v') \<in> set [(''tone'', JStr ''info'')].
     v' = JUndefined \<or> v' = JBool True \<or> (\<exists>ex. sampleEncoder v' = Inr ex)"
    by (simp add: sampleEncoder_def)
  have fails: "sampleEncoder (JOpaque 0) = Inl (Error ''Unsupported value'')"
    by (simp add: sampleEncoder_def)
  from serialization_failure[OF run mem ps pre _ _ fails] run shape show ?thesis
    by (simp add: errorMessage_def)
qed

section \<open>Name expansion\<close>

text \<open>
  C9 as stated fails: only the entries whose key is among the input names are read.
  \<^verbatim>\<open>X\<close> is a rewrite target of the rename map that \<^verbatim>\<open>Scope\<close> declares, and it is
  not in the result for the input names \<^verbatim>\<open>{p}\<close>.
\<close>

theorem expand_names_counterexample:
  "''X'' \<in> renameTargetNames
     [(''Scope'', \<lparr>mdxTransform =
         Some \<lparr>renameFlow = Declared [(''br'', renameTo ''X'')]\<rparr>\<rparr>)] ''Scope'' \<and>
   expandHydratedComponentNames [''p'']
     [(''Scope'', \<lparr>mdxTransform =
         Some \<lparr>renameFlow = Declared [(''br'', renameTo ''X'')]\<rparr>\<rparr>)] = [''p'']"
  by (simp add: expandHydratedComponentNames_def Set_new_def Set_add_def renameTo_def
        renameTargetNames_def)

text \<open>
  C9, amended. The result holds exactly the input names and, for every input name that
  is the key of a registry entry with a transform rule and a rename map, the component
  names of the rewrite targets of that map. Entries whose key is not an input name add
  nothing, and the names added are not expanded again.
\<close>

theorem expand_names:
  "set (expandHydratedComponentNames componentNames componentDefinitions) =
   set componentNames \<union>
   (\<Union>n \<in> set componentNames. renameTargetNames componentDefinitions n)"
  by (simp add: expandHydratedComponentNames_def set_expand_loop set_Set_new)

theorem expand_names_witness:
  "set (expandHydratedComponentNames [''Scope'', ''br'']
     [(''Scope'', \<lparr>mdxTransform =
         Some \<lparr>renameFlow = Declared [(''br'', renameTo ''X'')]\<rparr>\<rparr>)]) =
   {''Scope'', ''br'', ''X''}"
  using expand_names[of "[''Scope'', ''br'']"
     "[(''Scope'', \<lparr>mdxTransform =
         Some \<lparr>renameFlow = Declared [(''br'', renameTo ''X'')]\<rparr>\<rparr>)]"]
  by (auto simp: renameTargetNames_def renameTo_def)

section \<open>Attributes of a renamed element\<close>

text \<open>
  C10 (attribute wipe). When \<^verbatim>\<open>applyFlowRename\<close> returns, the element's attribute list
  is the list built from the target's props, whatever the element's attributes were.
  With no props, or with an empty props object, the call always returns and the
  attribute list is empty.
\<close>

theorem attribute_wipe:
  "(applyFlowRename enc (Flow n as cs) target = (element, None) \<longrightarrow>
      buildAttributes enc (props (component target)) = Inr (attributes element)) \<and>
   (props (component target) = None \<or> props (component target) = Some [] \<longrightarrow>
      (\<exists>cs'. applyFlowRename enc (Flow n as cs) target =
         (Flow (Some (name (component target))) [] cs', None)))"
  by (auto simp: buildAttributes_def split: sum.splits)

theorem attribute_wipe_witness:
  "applyFlowRename sampleEncoder
     (Flow (Some ''br'') [MdxJsxAttribute ''class'' (StringValue ''x'')] []) (renameTo ''BlankLine'') =
     (Flow (Some ''BlankLine'') [] [], None) \<and>
   attributes (fst (applyFlowRename sampleEncoder
     (Flow (Some ''br'') [MdxJsxAttribute ''class'' (StringValue ''x'')] [])
     (renameWith ''BlankLine'' [(''enabled'', JBool True)] Clear))) = [MdxJsxAttribute ''enabled'' Null]"
  using attribute_wipe[of sampleEncoder "Some ''br''" "[MdxJsxAttribute ''class'' (StringValue ''x'')]" "[]"
          "renameTo ''BlankLine''" "Flow (Some ''BlankLine'') [] []"]
        attribute_wipe[of sampleEncoder "Some ''br''" "[MdxJsxAttribute ''class'' (StringValue ''x'')]" "[]"
          "renameWith ''BlankLine'' [(''enabled'', JBool True)] Clear"
          "fst (applyFlowRename sampleEncoder
     (Flow (Some ''br'') [MdxJsxAttribute ''class'' (StringValue ''x'')] [])
     (renameWith ''BlankLine'' [(''enabled'', JBool True)] Clear))"]
  by (simp add: renameWith_def renameTo_def buildAttributes_def toMdxAttribute_def clearsChildren_def)

end
